theory Spec2Isabelle
  imports Complex_Main "HOL-Library.Multiset" "HOL-Library.AList" "HOL-Library.Product_Lexorder"
begin

section \<open>HyperionSort: shared conventions\<close>

text \<open>
  The development embeds \<^verbatim>\<open>src/HyperionSort.py\<close>. Python exceptions are values of
  \<open>error\<close>; a function that can raise returns \<open>error + 'a\<close> with \<open>Inl\<close> for the raise.
\<close>

datatype error =
  IndexError | ValueError | ZeroDivisionError | TypeError | TypingError | OtherError

text \<open>
  Array elements are float64 values. They are modelled as real numbers: the order of
  finite floats is the order of the reals they denote, so every comparison, minimum,
  maximum, sort and filter is exact. Where the source does arithmetic on elements
  (a mean, an interpolation, a standard deviation) the model computes in exact
  arithmetic and says so; a NaN is an explicit \<open>None\<close> or a raise where the source can
  produce one, and the infinities are not modelled.
\<close>

type_synonym elem = real

section \<open>AdaptiveCache\<close>

text \<open>
  \<^verbatim>\<open>self.cache\<close> is a dict: an association list with one pair per key (a dict keeps
  insertion order, and assigning to a key that is present keeps its place).
  \<^verbatim>\<open>self._access_history\<close> is a \<^verbatim>\<open>deque(maxlen=...)\<close>: its contents and its
  \<^verbatim>\<open>maxlen\<close>. \<^verbatim>\<open>get\<close> is decorated with \<^verbatim>\<open>functools.lru_cache(maxsize=256)\<close>, which
  memoises the method on its arguments \<^verbatim>\<open>(self, key)\<close>; \<open>get_memo\<close> is the decorator's
  table for this instance, most recently used entry first. \<open>None\<close> is Python's
  \<^verbatim>\<open>None\<close>.
\<close>

record ('k, 'v) AdaptiveCache =
  cache :: "('k \<times> 'v) list"
  size_c :: nat
  hits :: nat
  misses :: nat
  access_history :: "'k list"
  history_maxlen :: nat
  min_size :: nat
  get_memo :: "('k \<times> 'v option) list"

text \<open>\<^verbatim>\<open>deque.append\<close> on a deque with a \<^verbatim>\<open>maxlen\<close>: a full deque drops its leftmost item.\<close>

definition deque_append :: "nat \<Rightarrow> 'a list \<Rightarrow> 'a \<Rightarrow> 'a list" where
  "deque_append maxlen d x = (let d' = d @ [x] in if length d' > maxlen then tl d' else d')"

text \<open>\<^verbatim>\<open>AdaptiveCache.__init__\<close>\<close>

definition AdaptiveCache_init :: "nat \<Rightarrow> ('k, 'v) AdaptiveCache" where
  "AdaptiveCache_init initial_size =
     \<lparr> cache = [], size_c = initial_size, hits = 0, misses = 0,
       access_history = [], history_maxlen = initial_size,
       min_size = initial_size div 2, get_memo = [] \<rparr>"

definition resize_threshold :: rat where
  "resize_threshold = 8 / 10"

definition should_resize :: "('k, 'v) AdaptiveCache \<Rightarrow> bool" where
  "should_resize c =
     (if access_history c = [] then False
      else (let hit_rate = (of_nat (hits c) :: rat) / of_nat (hits c + misses c + 1)
            in hit_rate < resize_threshold \<or> length (access_history c) < min_size c))"

text \<open>\<^verbatim>\<open>int(self.size * 1.5)\<close> truncates: for a size that is not negative, \<open>3 * size div 2\<close>.\<close>

definition resize :: "('k, 'v) AdaptiveCache \<Rightarrow> ('k, 'v) AdaptiveCache" where
  "resize c =
     (if should_resize c
      then (let s = max (min_size c) (size_c c * 3 div 2)
            in c\<lparr> size_c := s, access_history := [], history_maxlen := s \<rparr>)
      else c)"

text \<open>The body of \<^verbatim>\<open>get\<close>, as the decorator calls it on a key it has not memoised.\<close>

definition get_body :: "('k, 'v) AdaptiveCache \<Rightarrow> 'k \<Rightarrow> 'v option \<times> ('k, 'v) AdaptiveCache" where
  "get_body c key =
     (case map_of (cache c) key of
        Some v \<Rightarrow>
          (Some v, c\<lparr> hits := hits c + 1,
                       access_history := deque_append (history_maxlen c) (access_history c) key \<rparr>)
      | None \<Rightarrow> (None, resize (c\<lparr> misses := misses c + 1 \<rparr>)))"

text \<open>
  \<^verbatim>\<open>get\<close> as callers see it, through \<^verbatim>\<open>lru_cache(maxsize=256)\<close>: a memoised key returns
  the memoised result without running the body; otherwise the body runs and its result
  is memoised, the least recently used entry leaving a full table.
\<close>

definition get :: "('k, 'v) AdaptiveCache \<Rightarrow> 'k \<Rightarrow> 'v option \<times> ('k, 'v) AdaptiveCache" where
  "get c key =
     (case map_of (get_memo c) key of
        Some r \<Rightarrow> (r, c\<lparr> get_memo := (key, r) # AList.delete key (get_memo c) \<rparr>)
      | None \<Rightarrow>
          (let (r, c') = get_body c key
           in (r, c'\<lparr> get_memo := take 256 ((key, r) # get_memo c') \<rparr>)))"

text \<open>
  \<^verbatim>\<open>put\<close>: \<^verbatim>\<open>popleft\<close> on an empty deque raises \<^verbatim>\<open>IndexError\<close>;
  \<^verbatim>\<open>self.cache.pop(oldest, None)\<close> removes the key when it is there.
\<close>

definition put :: "('k, 'v) AdaptiveCache \<Rightarrow> 'k \<Rightarrow> 'v \<Rightarrow> error + ('k, 'v) AdaptiveCache" where
  "put c key v =
     (let store = (\<lambda>c. c\<lparr> cache := AList.update key v (cache c),
                           access_history := deque_append (history_maxlen c) (access_history c) key \<rparr>)
      in if length (cache c) \<ge> size_c c
         then (case access_history c of
                 [] \<Rightarrow> Inl IndexError
               | oldest # rest \<Rightarrow>
                   Inr (store (c\<lparr> cache := AList.delete oldest (cache c), access_history := rest \<rparr>)))
         else Inr (store c))"

text \<open>A caller's sequence of operations on one cache; it stops at the first raise.\<close>

datatype ('k, 'v) cache_op = Get 'k | Put 'k 'v | Resize

fun run_ops :: "('k, 'v) AdaptiveCache \<Rightarrow> ('k, 'v) cache_op list \<Rightarrow> error + ('k, 'v) AdaptiveCache" where
  "run_ops c [] = Inr c"
| "run_ops c (Get k # ops) = run_ops (snd (get c k)) ops"
| "run_ops c (Put k v # ops) = (case put c k v of Inl e \<Rightarrow> Inl e | Inr c' \<Rightarrow> run_ops c' ops)"
| "run_ops c (Resize # ops) = run_ops (resize c) ops"

section \<open>StreamProcessor\<close>

text \<open>
  \<^verbatim>\<open>self.buffer\<close> is a \<^verbatim>\<open>deque(maxlen=chunk_size)\<close> made once, in \<^verbatim>\<open>__init__\<close>;
  \<^verbatim>\<open>self.chunk_history\<close> is a \<^verbatim>\<open>deque(maxlen=5)\<close>. The lock and the regression object
  carry no data of their own.
\<close>

record StreamProcessor =
  sp_chunk_size :: nat
  buffer :: "elem list"
  buffer_maxlen :: nat
  chunks_processed :: nat
  last_chunk_size :: nat
  chunk_history :: "nat list"

text \<open>\<^verbatim>\<open>StreamProcessor.__init__\<close>; \<^verbatim>\<open>deque(maxlen=...)\<close> raises \<^verbatim>\<open>ValueError\<close> on a negative length.\<close>

definition StreamProcessor_init :: "int \<Rightarrow> error + StreamProcessor" where
  "StreamProcessor_init chunk_size =
     (if chunk_size < 0 then Inl ValueError
      else Inr \<lparr> sp_chunk_size = nat chunk_size, buffer = [], buffer_maxlen = nat chunk_size,
                 chunks_processed = 0, last_chunk_size = nat chunk_size, chunk_history = [] \<rparr>)"

text \<open>
  \<^verbatim>\<open>_update_chunk_size\<close>. The fitted line's prediction for the next window size comes
  from scikit-learn's \<^verbatim>\<open>LinearRegression\<close>, a float computation outside this repository:
  \<open>predict\<close> stands for \<^verbatim>\<open>int(next_chunk_size)\<close> as a function of the history.
\<close>

definition update_chunk_size :: "(nat list \<Rightarrow> int) \<Rightarrow> StreamProcessor \<Rightarrow> StreamProcessor" where
  "update_chunk_size predict sp =
     (if length (chunk_history sp) < 2 then sp
      else sp\<lparr> sp_chunk_size := nat (max 1000 (predict (chunk_history sp))) \<rparr>)"

text \<open>
  The \<^verbatim>\<open>for item in data_stream\<close> loop of \<^verbatim>\<open>process_stream\<close>, on the items consumed so
  far: the windows yielded, in order, and the processor afterwards.
\<close>

fun stream_loop ::
  "(nat list \<Rightarrow> int) \<Rightarrow> StreamProcessor \<Rightarrow> elem list \<Rightarrow> elem list list \<times> StreamProcessor" where
  "stream_loop predict sp [] = ([], sp)"
| "stream_loop predict sp (item # items) =
     (let sp1 = sp\<lparr> buffer := deque_append (buffer_maxlen sp) (buffer sp) item \<rparr>
      in if length (buffer sp1) \<ge> sp_chunk_size sp1
         then (let window = sort (buffer sp1);
                   sp2 = sp1\<lparr> chunks_processed := chunks_processed sp1 + 1,
                              chunk_history := deque_append 5 (chunk_history sp1) (length (buffer sp1)),
                              buffer := [] \<rparr>;
                   (windows, sp3) = stream_loop predict (update_chunk_size predict sp2) items
               in (window # windows, sp3))
         else stream_loop predict sp1 items)"

text \<open>\<^verbatim>\<open>process_stream\<close> on a stream that ends: the loop, then the flush of what is left.\<close>

definition process_stream ::
  "(nat list \<Rightarrow> int) \<Rightarrow> StreamProcessor \<Rightarrow> elem list \<Rightarrow> elem list list \<times> StreamProcessor" where
  "process_stream predict sp data_stream =
     (let (windows, sp1) = stream_loop predict sp data_stream
      in if buffer sp1 \<noteq> []
         then (windows @ [sort (buffer sp1)],
               sp1\<lparr> chunks_processed := chunks_processed sp1 + 1,
                    chunk_history := deque_append 5 (chunk_history sp1) (length (buffer sp1)) \<rparr>)
         else (windows, sp1))"

section \<open>Pivot selection and partitioning\<close>

text \<open>
  \<^verbatim>\<open>np.median\<close>: the middle element of the sorted values, or the mean of the two middle
  ones. On an empty array NumPy returns NaN (with a warning); \<open>None\<close> stands for that NaN.
\<close>

definition median_of :: "elem list \<Rightarrow> elem" where
  "median_of xs =
     (let s = sort xs; n = length xs
      in if odd n then s ! (n div 2) else (s ! (n div 2 - 1) + s ! (n div 2)) / 2)"

definition np_median :: "elem list \<Rightarrow> elem option" where
  "np_median xs = (if xs = [] then None else Some (median_of xs))"

text \<open>
  \<^verbatim>\<open>_ninther\<close>. From 9 elements on, the three medians are those of the triples
  \<^verbatim>\<open>[arr[i], arr[i + thirds], arr[i + 2 * thirds]]\<close> for \<open>i = 0, 1, 2\<close>; every index is
  in range, since \<open>2 + 2 * (n div 3) < n\<close> for \<open>n \<ge> 9\<close>.
\<close>

definition ninther :: "elem list \<Rightarrow> elem option" where
  "ninther arr =
     (if length arr < 9 then np_median arr
      else (let thirds = length arr div 3;
                medians = map (\<lambda>i. median_of [arr ! i, arr ! (i + thirds), arr ! (i + 2 * thirds)])
                              [0..<3]
            in np_median medians))"

text \<open>
  The ninther as the specification words it: split the array into three thirds of
  \<open>n div 3\<close> elements (the last third takes the remainder), take the median of each
  third, then the median of those three.
\<close>

definition ninther_of_thirds :: "elem list \<Rightarrow> elem option" where
  "ninther_of_thirds arr =
     (let t = length arr div 3
      in np_median [median_of (take t arr), median_of (take t (drop t arr)),
                    median_of (drop (2 * t) arr)])"

text \<open>The median of three values by comparisons alone.\<close>

definition med3 :: "elem \<Rightarrow> elem \<Rightarrow> elem \<Rightarrow> elem" where
  "med3 a b c = max (min a b) (min (max a b) c)"

text \<open>
  \<^verbatim>\<open>np.linspace(start, stop, num)\<close> and \<^verbatim>\<open>np.percentile(arr, q)\<close> (linear interpolation
  between the two nearest ranks of the sorted array), both in exact arithmetic. At
  \<open>q = 0\<close> and \<open>q = 100\<close> the percentile is the minimum and the maximum, with no
  arithmetic on the elements.
\<close>

definition linspace :: "real \<Rightarrow> real \<Rightarrow> nat \<Rightarrow> real list" where
  "linspace start stop num =
     (if num = 1 then [start]
      else map (\<lambda>j. start + real j * ((stop - start) / real (num - 1))) [0..<num])"

definition percentile :: "elem list \<Rightarrow> real \<Rightarrow> elem" where
  "percentile arr q =
     (let s = sort arr; n = length arr;
          pos = q / 100 * real (n - 1);
          lo = nat \<lfloor>pos\<rfloor>;
          hi = min (lo + 1) (n - 1)
      in s ! lo + (s ! hi - s ! lo) * (pos - real lo))"

text \<open>
  \<^verbatim>\<open>_advanced_partition\<close>: one partition per pair of consecutive pivots, holding the
  elements \<open>x\<close> with \<^verbatim>\<open>pivots[i - 1] <= x < pivots[i]\<close>; empty partitions are left out.
\<close>

definition advanced_partition :: "elem list \<Rightarrow> elem list list" where
  "advanced_partition arr =
     (if length arr < 1000 then [arr]
      else (let quantiles = linspace 0 100 (min (length arr div 1000 + 1) 10);
                pivots = map (percentile arr) quantiles
            in filter (\<lambda>partition. length partition > 0)
                 (map (\<lambda>i. filter (\<lambda>x. pivots ! (i - 1) \<le> x \<and> x < pivots ! i) arr)
                      [1..<length pivots])))"

text \<open>
  \<^verbatim>\<open>_hybrid_sort\<close>. \<^verbatim>\<open>np.concatenate\<close> raises \<^verbatim>\<open>ValueError\<close> on an empty list of arrays.
\<close>

definition hybrid_sort :: "elem list \<Rightarrow> error + elem list" where
  "hybrid_sort arr =
     (if length arr < 1000 then Inr (sort arr)
      else (let sorted_partitions = map sort (advanced_partition arr)
            in if sorted_partitions = [] then Inl ValueError else Inr (concat sorted_partitions)))"

text \<open>
  \<^verbatim>\<open>_pivot_tree_partition\<close> and its inner \<^verbatim>\<open>_recursive_partition\<close>. A NaN pivot compares
  false with everything, so all three masks are empty.
\<close>

function recursive_partition :: "elem list \<Rightarrow> nat \<Rightarrow> elem list list" where
  "recursive_partition arr depth =
     (if length arr \<le> 100 \<or> depth > 10 then [arr]
      else (case ninther arr of
              None \<Rightarrow> recursive_partition [] (depth + 1) @ [[]] @ recursive_partition [] (depth + 1)
            | Some pivot \<Rightarrow>
                recursive_partition (filter (\<lambda>x. x < pivot) arr) (depth + 1)
                @ [filter (\<lambda>x. x = pivot) arr]
                @ recursive_partition (filter (\<lambda>x. x > pivot) arr) (depth + 1)))"
  by pat_completeness auto
termination
  by (relation "measure (\<lambda>(arr, depth). 11 - depth)") auto

definition pivot_tree_partition :: "elem list \<Rightarrow> elem list list" where
  "pivot_tree_partition arr =
     (if length arr \<le> 100 then [arr]
      else filter (\<lambda>part. length part > 0) (recursive_partition arr 0))"

section \<open>Sorts on array objects\<close>

text \<open>
  NumPy arrays are objects: a \<open>heap\<close> maps references to array contents, and
  \<open>next_ref\<close> is the first reference not yet in use. A slice \<^verbatim>\<open>arr[i:j]\<close> is a view:
  writing through it writes into \<open>arr\<close>.
\<close>

type_synonym ref = nat

record heap =
  cells :: "ref \<Rightarrow> elem list"
  next_ref :: ref

definition alloc :: "heap \<Rightarrow> elem list \<Rightarrow> heap \<times> ref" where
  "alloc h xs = (h\<lparr> cells := (cells h)(next_ref h := xs), next_ref := next_ref h + 1 \<rparr>, next_ref h)"

text \<open>
  \<^verbatim>\<open>_insertion_sort\<close> is a method decorated with \<^verbatim>\<open>@numba.jit(nopython = True)\<close>. Numba
  compiles at the first call and cannot give a type to the argument \<^verbatim>\<open>self\<close> in nopython
  mode: every call raises \<^verbatim>\<open>TypingError\<close> before the body runs, and the array is left as
  it was. \<open>insertion_sort_call\<close> is the call on an array with the given contents, as the
  paths that take its result see it; \<open>insertion_sort\<close> is the call on an array object.
\<close>

definition insertion_sort_call :: "elem list \<Rightarrow> error + elem list" where
  "insertion_sort_call arr = Inl TypingError"

definition insertion_sort :: "heap \<Rightarrow> ref \<Rightarrow> heap \<times> (error + ref)" where
  "insertion_sort h arr =
     (case insertion_sort_call (cells h arr) of
        Inl e \<Rightarrow> (h, Inl e)
      | Inr sorted_arr \<Rightarrow> (h\<lparr> cells := (cells h)(arr := sorted_arr) \<rparr>, Inr arr))"

text \<open>
  The body under the decorator, which would run were the decorator removed.
  \<open>insert_shift arr key (j + 1)\<close> is the \<^verbatim>\<open>while j >= 0 and arr[j] > key\<close> loop entered with
  index \<open>j\<close>, followed by \<^verbatim>\<open>arr[j + 1] = key\<close>; its last argument is \<open>j + 1\<close>, so that
  \<open>j = -1\<close> is \<open>0\<close>.
\<close>

fun insert_shift :: "elem list \<Rightarrow> elem \<Rightarrow> nat \<Rightarrow> elem list" where
  "insert_shift arr key 0 = arr[0 := key]"
| "insert_shift arr key (Suc j) =
     (if arr ! j > key then insert_shift (arr[Suc j := arr ! j]) key j
      else arr[Suc j := key])"

definition insertion_sort_body :: "elem list \<Rightarrow> elem list" where
  "insertion_sort_body arr = foldl (\<lambda>a i. insert_shift a (a ! i) i) arr [1..<length arr]"

text \<open>
  \<^verbatim>\<open>_heapsort\<close> and its inner \<^verbatim>\<open>heapify(n, i)\<close>, which reads and writes the enclosing
  \<^verbatim>\<open>arr\<close>. The two loops run \<open>i\<close> down from \<open>n div 2 - 1\<close> to 0 and from \<open>n - 1\<close> to 1.
\<close>

function heapify :: "elem list \<Rightarrow> nat \<Rightarrow> nat \<Rightarrow> elem list" where
  "heapify arr n i =
     (let left = 2 * i + 1;
          right = 2 * i + 2;
          largest = (if left < n \<and> arr ! left > arr ! i then left else i);
          largest = (if right < n \<and> arr ! right > arr ! largest then right else largest)
      in if largest \<noteq> i then heapify (arr[i := arr ! largest, largest := arr ! i]) n largest
         else arr)"
  by pat_completeness auto
termination
  by (relation "measure (\<lambda>(arr, n, i). n - i)") (auto split: if_splits)

definition heapsort_array :: "elem list \<Rightarrow> elem list" where
  "heapsort_array arr =
     (let n = length arr;
          built = foldl (\<lambda>a i. heapify a n i) arr (rev [0..<n div 2])
      in foldl (\<lambda>a i. heapify (a[0 := a ! i, i := a ! 0]) i 0) built (rev [1..<n]))"

definition heapsort :: "heap \<Rightarrow> ref \<Rightarrow> heap \<times> ref" where
  "heapsort h arr = (h\<lparr> cells := (cells h)(arr := heapsort_array (cells h arr)) \<rparr>, arr)"

text \<open>
  \<^verbatim>\<open>range(0, n, step)\<close>: the indices \<open>0, step, 2 * step, ...\<close> below \<open>n\<close>; a step of 0
  raises \<^verbatim>\<open>ValueError\<close>.
\<close>

definition range_step :: "nat \<Rightarrow> nat \<Rightarrow> error + nat list" where
  "range_step n step =
     (if step = 0 then Inl ValueError
      else Inr (map (\<lambda>k. k * step) [0..<(n + step - 1) div step]))"

text \<open>
  \<^verbatim>\<open>np.sort(chunk, out=chunk)\<close>: \<^verbatim>\<open>numpy.sort\<close> has no parameter \<^verbatim>\<open>out\<close>, so the call
  raises \<^verbatim>\<open>TypeError\<close> before anything is read or written.
\<close>

definition np_sort_out :: "elem list \<Rightarrow> error + elem list" where
  "np_sort_out chunk = Inl TypeError"

text \<open>
  \<^verbatim>\<open>_memory_efficient_sort\<close>. \<open>memory_efficient_loop chunk_size idxs arr result\<close> is the
  \<^verbatim>\<open>for i in range(0, len(arr), chunk_size)\<close> loop over the indices \<open>idxs\<close> still to come, on
  the contents of the two arrays. Each turn takes the view \<^verbatim>\<open>chunk = arr[i:i + chunk_size]\<close>,
  calls \<^verbatim>\<open>np.sort(chunk, out=chunk)\<close>, whose value it drops, and copies the view to the
  same place in \<^verbatim>\<open>result\<close>; nothing in it assigns to \<^verbatim>\<open>arr\<close>. \<open>chunk_size\<close> is what
  \<^verbatim>\<open>_adaptive_chunk_size\<close> returns from the operating system's readings. \<^verbatim>\<open>result\<close> is
  allocated (\<^verbatim>\<open>np.zeros_like\<close>) before the loop starts.
\<close>

fun memory_efficient_loop ::
  "nat \<Rightarrow> nat list \<Rightarrow> elem list \<Rightarrow> elem list \<Rightarrow> error + elem list \<times> elem list" where
  "memory_efficient_loop chunk_size [] arr result = Inr (arr, result)"
| "memory_efficient_loop chunk_size (i # idxs) arr result =
     (let chunk = take chunk_size (drop i arr)
      in case np_sort_out chunk of
           Inl e \<Rightarrow> Inl e
         | Inr sorted_copy \<Rightarrow>
             memory_efficient_loop chunk_size idxs arr
               (take i result @ chunk @ drop (i + chunk_size) result))"

definition memory_efficient_arrays :: "nat \<Rightarrow> elem list \<Rightarrow> error + elem list \<times> elem list" where
  "memory_efficient_arrays chunk_size arr =
     (case range_step (length arr) chunk_size of
        Inl e \<Rightarrow> Inl e
      | Inr idxs \<Rightarrow> memory_efficient_loop chunk_size idxs arr (replicate (length arr) 0))"

definition memory_efficient_sort :: "nat \<Rightarrow> heap \<Rightarrow> ref \<Rightarrow> heap \<times> (error + ref)" where
  "memory_efficient_sort chunk_size h arr =
     (let (h1, result) = alloc h (replicate (length (cells h arr)) 0)
      in case memory_efficient_arrays chunk_size (cells h arr) of
           Inl e \<Rightarrow> (h1, Inl e)
         | Inr (arr', result') \<Rightarrow>
             (h1\<lparr> cells := (cells h1)(arr := arr', result := result') \<rparr>, Inr result))"

text \<open>
  For stating what \<^verbatim>\<open>heapify\<close> achieves: \<open>is_heap arr n lo\<close> says that within the first
  \<open>n\<close> elements no node from \<open>lo\<close> on is smaller than a child of its own.
\<close>

definition child_ok :: "elem list \<Rightarrow> nat \<Rightarrow> nat \<Rightarrow> bool" where
  "child_ok arr n j =
     ((2 * j + 1 < n \<longrightarrow> arr ! (2 * j + 1) \<le> arr ! j) \<and> (2 * j + 2 < n \<longrightarrow> arr ! (2 * j + 2) \<le> arr ! j))"

definition is_heap :: "elem list \<Rightarrow> nat \<Rightarrow> nat \<Rightarrow> bool" where
  "is_heap arr n lo = (\<forall>j. lo \<le> j \<and> j < n \<longrightarrow> child_ok arr n j)"

declare heapify.simps [simp del]

section \<open>The bucket-count heuristic\<close>

text \<open>
  \<^verbatim>\<open>np.std\<close> (the population standard deviation) and \<^verbatim>\<open>np.ptp\<close> (maximum minus
  minimum), in exact arithmetic.
\<close>

definition np_mean :: "real list \<Rightarrow> real" where
  "np_mean xs = sum_list xs / real (length xs)"

definition np_std :: "real list \<Rightarrow> real" where
  "np_std xs = sqrt (sum_list (map (\<lambda>x. (x - np_mean xs)\<^sup>2) xs) / real (length xs))"

definition np_ptp :: "real list \<Rightarrow> real" where
  "np_ptp xs = Max (set xs) - Min (set xs)"

text \<open>
  \<^verbatim>\<open>_optimize_bucket_count\<close>, given the state of \<^verbatim>\<open>self.cache\<close> and the sample that
  \<^verbatim>\<open>arr[np.random.choice(n, sample_size, replace=False)]\<close> draws. The cache key
  \<^verbatim>\<open>f"bucket_count_{n}_{arr.std():.2f}"\<close> is the pair of \<open>n\<close> and the standard deviation in
  hundredths. \<^verbatim>\<open>if cached_value := self.cache.get(cache_key)\<close> takes a stored count that is
  not 0. In the second branch \<^verbatim>\<open>std_dev / range_size\<close> is a NumPy float division: on a
  range of 0 (where the standard deviation is 0 too) it is NaN, \<^verbatim>\<open>min\<close> returns the NaN,
  and \<^verbatim>\<open>int\<close> raises \<^verbatim>\<open>ValueError\<close>. The unused \<^verbatim>\<open>density\<close> is left out.
\<close>

definition optimize_bucket_count ::
  "(nat \<times> int, nat) AdaptiveCache \<Rightarrow> elem list \<Rightarrow> elem list
   \<Rightarrow> (error + nat) \<times> (nat \<times> int, nat) AdaptiveCache" where
  "optimize_bucket_count c sample arr =
     (let n = length arr
      in if n < 1000 then (Inr (max 1 (n div 10)), c)
         else (let cache_key = (n, round (100 * np_std arr));
                   (cached_value, c1) = get c cache_key;
                   store = (\<lambda>bucket_count.
                              case put c1 cache_key bucket_count of
                                Inl e \<Rightarrow> (Inl e, c1)
                              | Inr c2 \<Rightarrow> (Inr bucket_count, c2))
               in case (case cached_value of
                          None \<Rightarrow> None
                        | Some v \<Rightarrow> if v = 0 then None else Some v) of
                    Some v \<Rightarrow> (Inr v, c1)
                  | None \<Rightarrow>
                      (let std_dev = np_std sample;
                           range_size = np_ptp sample
                       in if std_dev < range_size / 100
                          then store (nat \<lfloor>sqrt (real n)\<rfloor>)
                          else if range_size = 0 then (Inl ValueError, c1)
                          else store (nat \<lfloor>min (sqrt (real n) * (std_dev / range_size) * 2)
                                                (real n / log 2 (real n))\<rfloor>))))"

section \<open>The pivot is an element of the array\<close>

text \<open>
  The median of three values is one of them, and so is the ninther of an array of 9 or
  more elements. The recursive sorts below rest on this for their termination.
\<close>

lemma median_of_three: "median_of [a, b, c] = med3 a b c"
  by (auto simp: median_of_def med3_def Let_def min_def max_def)

lemma upt3: "[0..<3] = [0, 1, 2]"
  by (simp add: upt_rec)

lemma med3_cases: "med3 a b c = a \<or> med3 a b c = b \<or> med3 a b c = c"
  by (auto simp: med3_def min_def max_def)

text \<open>From 9 elements on the pivot is one of the array's elements.\<close>

lemma ninther_in_set:
  assumes "9 \<le> length arr"
  shows "\<exists>p. ninther arr = Some p \<and> p \<in> set arr"
proof -
  let ?t = "length arr div 3"
  have r: "2 + 2 * ?t < length arr" using assms by linarith
  have m: "\<And>i. i < 3 \<Longrightarrow> med3 (arr ! i) (arr ! (i + ?t)) (arr ! (i + 2 * ?t)) \<in> set arr"
  proof -
    fix i :: nat assume "i < 3"
    then have "i < length arr" "i + ?t < length arr" "i + 2 * ?t < length arr"
      using r by linarith+
    then have "arr ! i \<in> set arr" "arr ! (i + ?t) \<in> set arr" "arr ! (i + 2 * ?t) \<in> set arr"
      by simp_all
    then show "med3 (arr ! i) (arr ! (i + ?t)) (arr ! (i + 2 * ?t)) \<in> set arr"
      using med3_cases[of "arr ! i" "arr ! (i + ?t)" "arr ! (i + 2 * ?t)"] by auto
  qed
  from m[of 0] m[of 1] m[of 2]
  have a: "med3 (arr ! 0) (arr ! ?t) (arr ! (2 * ?t)) \<in> set arr"
    and b: "med3 (arr ! 1) (arr ! (1 + ?t)) (arr ! (1 + 2 * ?t)) \<in> set arr"
    and c: "med3 (arr ! 2) (arr ! (2 + ?t)) (arr ! (2 + 2 * ?t)) \<in> set arr"
    by simp_all
  have "ninther arr = Some (med3 (med3 (arr ! 0) (arr ! ?t) (arr ! (2 * ?t)))
                          (med3 (arr ! 1) (arr ! (1 + ?t)) (arr ! (1 + 2 * ?t)))
                          (med3 (arr ! 2) (arr ! (2 + ?t)) (arr ! (2 + 2 * ?t))))"
    using assms by (simp add: ninther_def np_median_def upt3 median_of_three Let_def)
  moreover have "med3 (med3 (arr ! 0) (arr ! ?t) (arr ! (2 * ?t)))
                          (med3 (arr ! 1) (arr ! (1 + ?t)) (arr ! (1 + 2 * ?t)))
                          (med3 (arr ! 2) (arr ! (2 + ?t)) (arr ! (2 + 2 * ?t))) \<in> set arr"
    using a b c med3_cases[of "med3 (arr ! 0) (arr ! ?t) (arr ! (2 * ?t))"
        "med3 (arr ! 1) (arr ! (1 + ?t)) (arr ! (1 + 2 * ?t))"
        "med3 (arr ! 2) (arr ! (2 + ?t)) (arr ! (2 + 2 * ?t))"] by auto
  ultimately show ?thesis by blast
qed

section \<open>The sort engine\<close>

datatype SortStrategy =
  AUTO | PARALLEL | MEMORY_EFFICIENT | HYBRID | ADAPTIVE | STREAM | BLOCK_SORT | BUCKET_SORT
  | RADIX_SORT | COMPRESSION_SORT | EXTERNAL_SORT

text \<open>
  \<^verbatim>\<open>SortStats\<close>, without the fields that are measurements of the run (times, memory,
  CPU, the performance snapshot and the metrics log).
\<close>

record SortStats =
  items_processed :: nat
  bucket_distribution :: "nat list"
  strategy_used :: string
  algorithm_used :: string
  stream_chunks :: nat
  compression_ratio :: real
  error_detected :: bool
  fallback_strategy :: string

text \<open>
  What the engine takes from outside this repository, as functions of the array:
  \<^item> \<open>predict_strategy\<close>: \<^verbatim>\<open>_predict_strategy\<close>, the class the TensorFlow model gives a random
    sample's features, mapped to a strategy;
  \<^item> \<open>choose_optimal_strategy\<close>: \<^verbatim>\<open>_choose_optimal_strategy\<close>, a decision on a random sample,
    SciPy's skewness and kurtosis and \<^verbatim>\<open>psutil\<close>'s readings;
  \<^item> \<open>adaptive_chunk_size\<close>: \<^verbatim>\<open>_adaptive_chunk_size(len(arr), itemsize)\<close>, from \<^verbatim>\<open>psutil\<close>;
  \<^item> \<open>memo_cache\<close> and \<open>random_sample\<close>: the state of \<^verbatim>\<open>self.cache\<close> and the random sample
    that a call of \<^verbatim>\<open>_optimize_bucket_count\<close> on the array finds (the engine model does not
    carry the cache from call to call: every call may find any state);
  \<^item> \<open>adaptive_sample\<close>: the random sample that \<^verbatim>\<open>_adaptive_sort\<close> draws from the array;
  \<^item> \<open>compressed_size\<close>: \<^verbatim>\<open>len(compress(arr.tobytes()))\<close>, from LZ4;
  \<^item> \<open>next_chunk_size\<close>: the regression's prediction in \<^verbatim>\<open>_update_chunk_size\<close>.

  Thread and process pools are taken to return what the function they map returns, in
  the order of the arguments, and to raise what it raises; the temporary file of the
  external sort is taken to give back the bytes written to it.
\<close>

record surroundings =
  predict_strategy :: "elem list \<Rightarrow> error + SortStrategy"
  choose_optimal_strategy :: "elem list \<Rightarrow> error + SortStrategy"
  adaptive_chunk_size :: "nat \<Rightarrow> nat"
  memo_cache :: "elem list \<Rightarrow> (nat \<times> int, nat) AdaptiveCache"
  random_sample :: "elem list \<Rightarrow> elem list"
  adaptive_sample :: "elem list \<Rightarrow> elem list"
  compressed_size :: "elem list \<Rightarrow> nat"
  next_chunk_size :: "nat list \<Rightarrow> int"

text \<open>
  The engine's configuration and the one piece of state its stream path keeps. The
  constructor's other arguments keep their defaults: \<^verbatim>\<open>block_size = 4096\<close> for the block
  manager and \<^verbatim>\<open>cache_size = 2000\<close>; \<^verbatim>\<open>self.buffer_size\<close> is always 4096.
\<close>

record EnhancedHyperionSort =
  strategy :: SortStrategy
  stream_mode :: bool
  use_ml_prediction :: bool
  compression_threshold :: int
  external_sort_threshold :: int
  stream_processor :: StreamProcessor

definition block_size :: nat where
  "block_size = 4096"

definition buffer_size :: nat where
  "buffer_size = 4096"

text \<open>
  \<^verbatim>\<open>EnhancedHyperionSort.__init__\<close>, for the fields above: the stream processor is built
  with \<^verbatim>\<open>self.chunk_size or 1000\<close>.
\<close>

definition EnhancedHyperionSort_init ::
  "SortStrategy \<Rightarrow> int option \<Rightarrow> bool \<Rightarrow> bool \<Rightarrow> int \<Rightarrow> int \<Rightarrow> error + EnhancedHyperionSort" where
  "EnhancedHyperionSort_init strategy_arg chunk_size stream_mode_arg use_ml threshold ext_threshold =
     (case StreamProcessor_init
             (case chunk_size of None \<Rightarrow> 1000 | Some c \<Rightarrow> if c = 0 then 1000 else c) of
        Inl e \<Rightarrow> Inl e
      | Inr sp \<Rightarrow>
          Inr \<lparr> strategy = strategy_arg, stream_mode = stream_mode_arg,
                use_ml_prediction = use_ml, compression_threshold = threshold,
                external_sort_threshold = ext_threshold, stream_processor = sp \<rparr>)"

text \<open>
  \<^verbatim>\<open>_compression_sort\<close>. The array is float64, so \<^verbatim>\<open>arr.nbytes\<close> is 8 per element;
  \<^verbatim>\<open>len(compressed_data) / arr.nbytes\<close> divides two Python integers and raises
  \<^verbatim>\<open>ZeroDivisionError\<close> on an empty array. LZ4 is lossless: decompressing gives the
  array back.
\<close>

definition compression_sort :: "(elem list \<Rightarrow> nat) \<Rightarrow> int \<Rightarrow> elem list \<Rightarrow> error + elem list \<times> real" where
  "compression_sort compressed_len threshold arr =
     (if int (length arr) < threshold then Inr (arr, 1)
      else (let nbytes = 8 * length arr
            in if nbytes = 0 then Inl ZeroDivisionError
               else (let ratio = real (compressed_len arr) / real nbytes
                     in if ratio > 1 then Inr (arr, 1)
                        else Inr (sort arr, ratio))))"

text \<open>
  \<^verbatim>\<open>_get_bucket_distribution\<close>; the bucket edges are
  \<^verbatim>\<open>np.linspace(arr.min(), arr.max(), n_buckets + 1)\<close>, in exact arithmetic.
\<close>

definition get_bucket_distribution :: "surroundings \<Rightarrow> elem list \<Rightarrow> error + nat list" where
  "get_bucket_distribution sur arr =
     (if length arr = 0 then Inr []
      else (case fst (optimize_bucket_count (memo_cache sur arr) (random_sample sur arr) arr) of
              Inl e \<Rightarrow> Inl e
            | Inr n_buckets \<Rightarrow>
                (let bucket_ranges = linspace (Min (set arr)) (Max (set arr)) (n_buckets + 1)
                 in Inr (map (\<lambda>i. length (filter (\<lambda>x. bucket_ranges ! i \<le> x
                                                       \<and> x < bucket_ranges ! (i + 1)) arr))
                             [0..<n_buckets]))))"

text \<open>
  \<^verbatim>\<open>_calculate_stats\<close>. With an \<^verbatim>\<open>error\<close> it reports algorithm \<^verbatim>\<open>"none"\<close>, no bucket
  distribution and \<^verbatim>\<open>error_detected=True\<close>; \<^verbatim>\<open>fallback_strategy\<close> is never passed and keeps
  its default \<^verbatim>\<open>"None"\<close>.
\<close>

definition calculate_stats ::
  "surroundings \<Rightarrow> elem list \<Rightarrow> string \<Rightarrow> string \<Rightarrow> error option \<Rightarrow> nat \<Rightarrow> real \<Rightarrow> bool
   \<Rightarrow> error + SortStats" where
  "calculate_stats sur arr strategy_name algorithm err chunks ratio detected =
     (case err of
        Some e \<Rightarrow>
          Inr \<lparr> items_processed = length arr, bucket_distribution = [],
                strategy_used = strategy_name, algorithm_used = ''none'',
                stream_chunks = chunks, compression_ratio = ratio,
                error_detected = True, fallback_strategy = ''None'' \<rparr>
      | None \<Rightarrow>
          (case get_bucket_distribution sur arr of
             Inl e \<Rightarrow> Inl e
           | Inr distribution \<Rightarrow>
               Inr \<lparr> items_processed = length arr, bucket_distribution = distribution,
                     strategy_used = strategy_name, algorithm_used = algorithm,
                     stream_chunks = chunks, compression_ratio = ratio,
                     error_detected = detected, fallback_strategy = ''None'' \<rparr>))"

text \<open>
  \<^verbatim>\<open>_stream_sort_and_collect\<close>: the windows are concatenated as they come; the
  processor keeps what the run left in it.
\<close>

definition stream_sort_and_collect ::
  "surroundings \<Rightarrow> StreamProcessor \<Rightarrow> elem list
   \<Rightarrow> (error + elem list \<times> SortStats option) \<times> StreamProcessor" where
  "stream_sort_and_collect sur sp data_stream =
     (let (all_chunks, sp') = process_stream (next_chunk_size sur) sp data_stream
      in if all_chunks = []
         then (map_sum id (\<lambda>st. ([], Some st))
                 (calculate_stats sur [] ''stream'' ''none'' None 0 1 False), sp')
         else (let merged_array = concat all_chunks
               in (map_sum id (\<lambda>st. (merged_array, Some st))
                     (calculate_stats sur merged_array ''stream'' ''timsort'' None
                        (chunks_processed sp') 1 False), sp')))"

text \<open>The strategy \<^verbatim>\<open>sort\<close> settles on, first matching rule first.\<close>

definition select_strategy ::
  "surroundings \<Rightarrow> EnhancedHyperionSort \<Rightarrow> elem list \<Rightarrow> error + SortStrategy" where
  "select_strategy sur eng arr =
     (if int (length arr) > external_sort_threshold eng then Inr EXTERNAL_SORT
      else if use_ml_prediction eng then predict_strategy sur arr
      else if strategy eng = AUTO then choose_optimal_strategy sur arr
      else Inr (strategy eng))"

text \<open>
  \<^verbatim>\<open>np.array_split(ary, sections)\<close> for a number of sections from 1 on (every caller
  passes \<^verbatim>\<open>max(1, ...)\<close>): the first \<open>len mod sections\<close> sub-arrays have
  \<open>len div sections + 1\<close> elements, the others \<open>len div sections\<close>.
\<close>

fun split_at_sizes :: "nat list \<Rightarrow> elem list \<Rightarrow> elem list list" where
  "split_at_sizes [] ary = []"
| "split_at_sizes (k # ks) ary = take k ary # split_at_sizes ks (drop k ary)"

definition array_split :: "elem list \<Rightarrow> nat \<Rightarrow> elem list list" where
  "array_split ary sections =
     (let each_section = length ary div sections;
          extras = length ary mod sections
      in split_at_sizes (replicate extras (each_section + 1)
                         @ replicate (sections - extras) each_section) ary)"

text \<open>
  \<^verbatim>\<open>_merge_sorted_arrays\<close>. The heap holds tuples \<^verbatim>\<open>(value, arr_idx, elem_idx)\<close>, which
  Python compares lexicographically; no two of them agree on the last two components,
  so the tuple that \<^verbatim>\<open>heappop\<close> takes is the least one, whatever the layout of the heap.
  The heap is kept as the list of its tuples.
\<close>

text \<open>Taking the least tuple out of the heap, for the termination of the merge loop.\<close>

lemma merge_loop_measure:
  fixes f :: "elem \<times> nat \<times> nat \<Rightarrow> nat"
  assumes "heap \<noteq> []" and "m = Min (set heap)"
  shows "sum_list (map f (remove1 m heap)) + length (remove1 m heap) + f m + 1
         = sum_list (map f heap) + length heap"
proof -
  have m: "m \<in> set heap" unfolding assms(2) using assms(1) by (intro Min_in) simp_all
  have "sum_list (map f heap) = f m + sum_list (map f (remove1 m heap))"
    using m by (rule sum_list_map_remove1)
  moreover have "0 < length heap" using assms(1) by simp
  then have "length heap = length (remove1 m heap) + 1"
    using m by (simp add: length_remove1)
  ultimately show ?thesis by simp
qed

function merge_loop ::
  "elem list list \<Rightarrow> (elem \<times> nat \<times> nat) list \<Rightarrow> elem list \<Rightarrow> elem list" where
  "merge_loop arrays heap merged =
     (if heap = [] then merged
      else (case Min (set heap) of (val, arr_idx, elem_idx) \<Rightarrow>
              if elem_idx + 1 < length (arrays ! arr_idx)
              then merge_loop arrays
                     ((arrays ! arr_idx ! (elem_idx + 1), arr_idx, elem_idx + 1)
                      # remove1 (val, arr_idx, elem_idx) heap)
                     (merged @ [val])
              else merge_loop arrays (remove1 (val, arr_idx, elem_idx) heap) (merged @ [val])))"
  by pat_completeness auto
termination
proof (relation "measure (\<lambda>(arrays, heap, merged).
          sum_list (map (\<lambda>(val, arr_idx, elem_idx). length (arrays ! arr_idx) - elem_idx) heap)
          + length heap)", goal_cases)
  case 1
  then show ?case by simp
next
  case (2 arrays heap merged x1 x2 x3 x4)
  then have "(x1, x3, x4) = Min (set heap)" by simp
  from merge_loop_measure[OF 2(1) this,
      of "\<lambda>(val, arr_idx, elem_idx). length (arrays ! arr_idx) - elem_idx"] 2(4)
  show ?case by simp
next
  case (3 arrays heap merged x1 x2 x3 x4)
  then have "(x1, x3, x4) = Min (set heap)" by simp
  from merge_loop_measure[OF 3(1) this,
      of "\<lambda>(val, arr_idx, elem_idx). length (arrays ! arr_idx) - elem_idx"]
  show ?case by simp
qed

declare merge_loop.simps [simp del]

definition merge_sorted_arrays :: "elem list list \<Rightarrow> elem list" where
  "merge_sorted_arrays arrays =
     merge_loop arrays
       (map (\<lambda>i. (arrays ! i ! 0, i, 0)) (filter (\<lambda>i. length (arrays ! i) > 0) [0..<length arrays]))
       []"

text \<open>
  \<^verbatim>\<open>_parallel_sort\<close>. \<^verbatim>\<open>len(arr) // chunk_size\<close> raises \<^verbatim>\<open>ZeroDivisionError\<close> on a chunk
  size of 0.
\<close>

definition parallel_sort :: "surroundings \<Rightarrow> elem list \<Rightarrow> error + elem list \<times> SortStats" where
  "parallel_sort sur arr =
     (let chunk_size = adaptive_chunk_size sur (length arr)
      in if chunk_size = 0 then Inl ZeroDivisionError
         else (let chunks = array_split arr (max 1 (length arr div chunk_size));
                   sorted_chunks = map sort chunks;
                   result = merge_sorted_arrays sorted_chunks
               in case calculate_stats sur arr ''parallel'' ''quicksort'' None 0 1 False of
                    Inl e \<Rightarrow> Inl e
                  | Inr stats \<Rightarrow> Inr (result, stats)))"

text \<open>
  \<^verbatim>\<open>_adaptive_sort\<close>. \<^verbatim>\<open>np.sum(np.diff(sample) < 0) < len(sample) * 0.1\<close> counts the
  descents of the sample and compares the count with a tenth of the sample's length;
  for a count \<open>c\<close> and a length \<open>n\<close> of at most 1000 the float comparison holds exactly
  when \<open>10 * c < n\<close>. The standard deviation is in exact arithmetic. \<^verbatim>\<open>np.max\<close> raises
  \<^verbatim>\<open>ValueError\<close> on an empty sample.
\<close>

definition adaptive_sort :: "surroundings \<Rightarrow> elem list \<Rightarrow> error + elem list \<times> SortStats" where
  "adaptive_sort sur arr =
     (let sample = adaptive_sample sur arr;
          std_dev = np_std sample;
          is_nearly_sorted =
            (10 * length (filter (\<lambda>(a, b). b - a < 0) (zip sample (tl sample))) < length sample);
          finish = (\<lambda>algorithm result.
                      case calculate_stats sur arr ''adaptive'' algorithm None 0 1 False of
                        Inl e \<Rightarrow> Inl e
                      | Inr stats \<Rightarrow> Inr (result, stats))
      in if is_nearly_sorted then finish ''timsort'' (sort arr)
         else if sample = [] then Inl ValueError
         else if std_dev < (Max (set sample) - Min (set sample)) / 100
         then (case parallel_sort sur arr of
                 Inl e \<Rightarrow> Inl e
               | Inr (result, stats) \<Rightarrow> finish ''quicksort'' result)
         else (case hybrid_sort arr of
                 Inl e \<Rightarrow> Inl e
               | Inr result \<Rightarrow> finish ''mergesort'' result))"

text \<open>
  \<^verbatim>\<open>_quicksort\<close>. Both branches (through a thread pool above 1000 elements, directly
  below) take the sorted left part first and raise what it raises. A NaN pivot compares
  false with everything, so all three masks are empty.
\<close>

definition masks :: "elem list \<Rightarrow> elem option \<Rightarrow> elem list \<times> elem list \<times> elem list" where
  "masks arr pivot =
     (case pivot of
        None \<Rightarrow> ([], [], [])
      | Some p \<Rightarrow> (filter (\<lambda>x. x < p) arr, filter (\<lambda>x. x = p) arr, filter (\<lambda>x. x > p) arr))"

text \<open>
  Above 16 elements the pivot is an element of the array, so the parts below and above
  it are shorter than the array: the recursion of \<^verbatim>\<open>_quicksort\<close> ends.
\<close>

lemma masks_shorter:
  assumes "16 < length arr" and "masks arr (ninther arr) = (left, middle, right)"
  shows "length left < length arr" and "length right < length arr"
proof -
  from assms(1) ninther_in_set[of arr] obtain p where p: "ninther arr = Some p" "p \<in> set arr"
    by auto
  have "length (filter (\<lambda>x. x < p) arr) < length arr"
    using p(2) by (intro length_filter_less[of p]) simp_all
  moreover have "length (filter (\<lambda>x. x > p) arr) < length arr"
    using p(2) by (intro length_filter_less[of p]) simp_all
  ultimately show "length left < length arr" and "length right < length arr"
    using assms(2) p(1) by (auto simp: masks_def)
qed

function quicksort :: "elem list \<Rightarrow> error + elem list" where
  "quicksort arr =
     (if length arr \<le> 16 then insertion_sort_call arr
      else (case masks arr (ninther arr) of (left, middle, right) \<Rightarrow>
              (case quicksort left of
                 Inl e \<Rightarrow> Inl e
               | Inr sorted_left \<Rightarrow>
                   (case quicksort right of
                      Inl e \<Rightarrow> Inl e
                    | Inr sorted_right \<Rightarrow> Inr (sorted_left @ middle @ sorted_right)))))"
  by pat_completeness auto
termination
proof (relation "measure length", goal_cases)
  case 1
  then show ?case by simp
next
  case (2 arr x1 x2 x3 x4)
  then show ?case using masks_shorter(1)[of arr x1 x3 x4] by simp
next
  case (3 arr x1 x2 x3 x4 x5)
  then show ?case using masks_shorter(2)[of arr x1 x3 x4] by simp
qed

declare quicksort.simps [simp del]

text \<open>
  \<^verbatim>\<open>_introsort\<close>: \<open>introsort_depth\<close> is the call with \<^verbatim>\<open>max_depth\<close> given, \<open>introsort\<close> the
  call without it, where \<^verbatim>\<open>math.log2(len(arr))\<close> raises \<^verbatim>\<open>ValueError\<close> on an empty array.
  \<^verbatim>\<open>_heapsort\<close> is called on the array of the recursive call.
\<close>

fun introsort_depth :: "elem list \<Rightarrow> nat \<Rightarrow> error + elem list" where
  "introsort_depth arr 0 =
     (if length arr \<le> 16 then insertion_sort_call arr else Inr (heapsort_array arr))"
| "introsort_depth arr (Suc max_depth) =
     (if length arr \<le> 16 then insertion_sort_call arr
      else (case masks arr (ninther arr) of (left, middle, right) \<Rightarrow>
              (case introsort_depth left max_depth of
                 Inl e \<Rightarrow> Inl e
               | Inr sorted_left \<Rightarrow>
                   (case introsort_depth right max_depth of
                      Inl e \<Rightarrow> Inl e
                    | Inr sorted_right \<Rightarrow> Inr (sorted_left @ middle @ sorted_right)))))"

definition introsort :: "elem list \<Rightarrow> error + elem list" where
  "introsort arr =
     (if length arr = 0 then Inl ValueError
      else introsort_depth arr (2 * nat \<lfloor>log 2 (real (length arr))\<rfloor>))"

text \<open>
  \<^verbatim>\<open>_bucket_sort\<close>, with the bucket index in exact arithmetic. With no bucket at all
  the width is infinite, the index is 0, which equals \<^verbatim>\<open>n_buckets\<close>, and
  \<^verbatim>\<open>buckets[-1]\<close> raises \<^verbatim>\<open>IndexError\<close>.
\<close>

definition bucket_sort :: "surroundings \<Rightarrow> elem list \<Rightarrow> error + elem list" where
  "bucket_sort sur arr =
     (if length arr = 0 then Inr arr
      else (case fst (optimize_bucket_count (memo_cache sur arr) (random_sample sur arr) arr) of
              Inl e \<Rightarrow> Inl e
            | Inr n_buckets \<Rightarrow>
                (let min_val = Min (set arr); max_val = Max (set arr)
                 in if min_val = max_val then Inr arr
                    else if n_buckets = 0 then Inl IndexError
                    else (let width = (max_val - min_val) / real n_buckets;
                              bucket_idx = (\<lambda>x. let idx = nat \<lfloor>(x - min_val) / width\<rfloor>
                                                in if idx = n_buckets then idx - 1 else idx);
                              buckets = map (\<lambda>b. filter (\<lambda>x. bucket_idx x = b) arr) [0..<n_buckets];
                              sorted_buckets = map sort buckets
                          in Inr (concat (filter (\<lambda>bucket. bucket \<noteq> []) sorted_buckets))))))"

text \<open>
  \<^verbatim>\<open>_optimize_block_sort\<close> and \<^verbatim>\<open>_advanced_block_sort\<close>. \<open>collect_results\<close> is
  \<^verbatim>\<open>list(executor.map(...))\<close>: the results in the order of the blocks, or the first raise
  in that order. \<open>merge_pairs\<close> is one round of the \<^verbatim>\<open>while len(sorted_blocks) > 1\<close> loop,
  \<open>merge_rounds\<close> the loop.
\<close>

definition optimize_block_sort :: "surroundings \<Rightarrow> elem list \<Rightarrow> error + elem list" where
  "optimize_block_sort sur block =
     (if length block < 16 then insertion_sort_call block
      else (let std_dev = np_std block; range_size = np_ptp block
            in if std_dev < range_size / 100 then bucket_sort sur block
               else if length block < 1000 then quicksort block
               else introsort block))"

fun collect_results :: "(error + elem list) list \<Rightarrow> error + elem list list" where
  "collect_results [] = Inr []"
| "collect_results (r # rs) =
     (case r of
        Inl e \<Rightarrow> Inl e
      | Inr v \<Rightarrow> (case collect_results rs of Inl e \<Rightarrow> Inl e | Inr vs \<Rightarrow> Inr (v # vs)))"

fun merge_pairs :: "elem list list \<Rightarrow> elem list list" where
  "merge_pairs (a # b # rest) = merge_sorted_arrays [a, b] # merge_pairs rest"
| "merge_pairs [a] = [a]"
| "merge_pairs [] = []"

lemma length_merge_pairs: "length (merge_pairs blocks) = (length blocks + 1) div 2"
  by (induction blocks rule: merge_pairs.induct) simp_all

function merge_rounds :: "elem list list \<Rightarrow> elem list list" where
  "merge_rounds sorted_blocks =
     (if length sorted_blocks > 1 then merge_rounds (merge_pairs sorted_blocks)
      else sorted_blocks)"
  by pat_completeness auto
termination
  by (relation "measure length") (auto simp: length_merge_pairs)

declare merge_rounds.simps [simp del]

definition advanced_block_sort :: "surroundings \<Rightarrow> elem list \<Rightarrow> error + elem list" where
  "advanced_block_sort sur arr =
     (if length arr < 1000 then Inr (sort arr)
      else (let blocks = array_split arr (max 1 (length arr div block_size))
            in case collect_results (map (optimize_block_sort sur) blocks) of
                 Inl e \<Rightarrow> Inl e
               | Inr sorted_blocks \<Rightarrow>
                   (case merge_rounds sorted_blocks of
                      [] \<Rightarrow> Inl IndexError
                    | first_block # others \<Rightarrow> Inr first_block)))"

text \<open>
  \<^verbatim>\<open>_radix_sort\<close> on a float64 array, which is what \<^verbatim>\<open>sort\<close> makes of a list. The
  \<^verbatim>\<open>while max_val // exp > 0\<close> loop is entered with \<open>exp = 1\<close> when the maximum is 1 or
  more; its first turn computes \<^verbatim>\<open>digit = (x // exp) % 10\<close> for the first element, a NumPy
  float, and \<^verbatim>\<open>buckets[digit]\<close> raises \<^verbatim>\<open>TypeError\<close>, since a list index has to be an
  integer. Otherwise the array is returned as it is.
\<close>

definition radix_sort :: "elem list \<Rightarrow> error + elem list" where
  "radix_sort arr =
     (if length arr = 0 then Inr arr
      else (let max_val = Max (set arr); exp = 1
            in if \<lfloor>max_val / exp\<rfloor> > 0 then Inl TypeError else Inr arr))"

text \<open>
  \<^verbatim>\<open>_external_sort\<close>: the array is written to a file and read back in chunks of
  \<^verbatim>\<open>buffer_size\<close> bytes, 8 bytes to the element; each chunk is sorted and the chunks are
  merged.
\<close>

definition external_sort :: "elem list \<Rightarrow> elem list" where
  "external_sort arr =
     (let chunk_size = buffer_size;
          num_chunks = (length arr * 8 + chunk_size - 1) div chunk_size;
          chunks = map (\<lambda>i. take (chunk_size div 8) (drop (i * chunk_size div 8) arr))
                       [0..<num_chunks];
          sorted_chunks = map sort chunks
      in if length sorted_chunks = 0 then [] else merge_sorted_arrays sorted_chunks)"

text \<open>
  The dispatch of \<^verbatim>\<open>sort\<close> for every strategy but \<^verbatim>\<open>STREAM\<close> (which returns at once):
  the contents of \<^verbatim>\<open>arr\<close> afterwards, the array produced, and the stats for the paths
  that build a pair; the block and bucket paths return a bare array. \<^verbatim>\<open>AUTO\<close>, were it
  selected, falls to the last branch with \<^verbatim>\<open>PARALLEL\<close>.
\<close>

definition with_stats ::
  "surroundings \<Rightarrow> elem list \<Rightarrow> string \<Rightarrow> string \<Rightarrow> real \<Rightarrow> elem list
   \<Rightarrow> error + elem list \<times> elem list \<times> SortStats option" where
  "with_stats sur arr strategy_name algorithm ratio result =
     (case calculate_stats sur arr strategy_name algorithm None 0 ratio False of
        Inl e \<Rightarrow> Inl e
      | Inr st \<Rightarrow> Inr (arr, result, Some st))"

definition dispatch ::
  "surroundings \<Rightarrow> EnhancedHyperionSort \<Rightarrow> SortStrategy \<Rightarrow> elem list
   \<Rightarrow> error + elem list \<times> elem list \<times> SortStats option" where
  "dispatch sur eng s arr =
     (if s = MEMORY_EFFICIENT then
        (case memory_efficient_arrays (adaptive_chunk_size sur (length arr)) arr of
           Inl e \<Rightarrow> Inl e
         | Inr (arr', result) \<Rightarrow> with_stats sur arr' ''memory_efficient'' ''mergesort'' 1 result)
      else if s = HYBRID then
        (case hybrid_sort arr of
           Inl e \<Rightarrow> Inl e
         | Inr result \<Rightarrow> with_stats sur arr ''hybrid'' ''introsort'' 1 result)
      else if s = ADAPTIVE then
        (case adaptive_sort sur arr of
           Inl e \<Rightarrow> Inl e
         | Inr (result, stats) \<Rightarrow> Inr (arr, result, Some stats))
      else if s = BLOCK_SORT then
        (case advanced_block_sort sur arr of
           Inl e \<Rightarrow> Inl e
         | Inr result \<Rightarrow> Inr (arr, result, None))
      else if s = BUCKET_SORT then
        (case bucket_sort sur arr of
           Inl e \<Rightarrow> Inl e
         | Inr result \<Rightarrow> Inr (arr, result, None))
      else if s = RADIX_SORT then
        (case radix_sort arr of
           Inl e \<Rightarrow> Inl e
         | Inr result \<Rightarrow> with_stats sur arr ''radix'' ''radixsort'' 1 result)
      else if s = COMPRESSION_SORT then
        (case compression_sort (compressed_size sur) (compression_threshold eng) arr of
           Inl e \<Rightarrow> Inl e
         | Inr (result, ratio) \<Rightarrow> with_stats sur arr ''compression'' ''mergesort'' ratio result)
      else if s = EXTERNAL_SORT then
        with_stats sur arr ''external'' ''externalmergesort'' 1 (external_sort arr)
      else
        (case parallel_sort sur arr of
           Inl e \<Rightarrow> Inl e
         | Inr (result, stats) \<Rightarrow> Inr (arr, result, Some stats)))"

text \<open>\<^verbatim>\<open>np.all(result[:-1] <= result[1:])\<close>: every element is at most its successor.\<close>

definition is_sorted :: "elem list \<Rightarrow> bool" where
  "is_sorted result = list_all (\<lambda>(a, b). a \<le> b) (zip (butlast result) (tl result))"

text \<open>
  The verification step of \<^verbatim>\<open>sort\<close>: a result that is not non-decreasing is replaced by
  \<^verbatim>\<open>np.sort(arr, kind="stable")\<close> with stats for \<^verbatim>\<open>"fallback"\<close>, the fallback algorithm
  \<^verbatim>\<open>Algorithm.MERGESORT\<close> and \<^verbatim>\<open>error_detected=True\<close>.
\<close>

definition verify ::
  "surroundings \<Rightarrow> elem list \<times> elem list \<times> SortStats option
   \<Rightarrow> error + elem list \<times> SortStats option" where
  "verify sur r =
     (case r of (arr, result, stats) \<Rightarrow>
        if \<not> is_sorted result
        then (case calculate_stats sur arr ''fallback'' ''mergesort'' None 0 1 True of
                Inl e \<Rightarrow> Inl e
              | Inr fallback_stats \<Rightarrow> Inr (sort arr, Some fallback_stats))
        else Inr (result, stats))"

text \<open>The \<^verbatim>\<open>except Exception\<close> handler: the original array and stats for \<^verbatim>\<open>"failed"\<close>.\<close>

definition failed_result :: "surroundings \<Rightarrow> elem list \<Rightarrow> error \<Rightarrow> error + elem list \<times> SortStats option" where
  "failed_result sur original_arr e =
     map_sum id (\<lambda>st. (original_arr, Some st))
       (calculate_stats sur original_arr ''failed'' ''none'' (Some e) 0 1 False)"

text \<open>
  \<^verbatim>\<open>sort\<close>, on a Python list (\<^verbatim>\<open>np.array\<close> copies it, so \<^verbatim>\<open>original_arr\<close> keeps the
  input's values). In stream mode the call returns before the \<^verbatim>\<open>try\<close>, so a raise
  there leaves \<^verbatim>\<open>sort\<close>; everything raised later is caught by the handler.
\<close>

definition sort_entry ::
  "surroundings \<Rightarrow> EnhancedHyperionSort \<Rightarrow> elem list
   \<Rightarrow> (error + elem list \<times> SortStats option) \<times> EnhancedHyperionSort" where
  "sort_entry sur eng arr =
     (if stream_mode eng
      then (let (r, sp') = stream_sort_and_collect sur (stream_processor eng) arr
            in (r, eng\<lparr> stream_processor := sp' \<rparr>))
      else (case select_strategy sur eng arr of
              Inl e \<Rightarrow> (failed_result sur arr e, eng)
            | Inr s \<Rightarrow>
                if s = STREAM
                then (let (r, sp') = stream_sort_and_collect sur (stream_processor eng) arr
                      in ((case r of Inl e \<Rightarrow> failed_result sur arr e | Inr v \<Rightarrow> Inr v),
                          eng\<lparr> stream_processor := sp' \<rparr>))
                else (case dispatch sur eng s arr of
                        Inl e \<Rightarrow> (failed_result sur arr e, eng)
                      | Inr r \<Rightarrow>
                          (case verify sur r of
                             Inl e \<Rightarrow> (failed_result sur arr e, eng)
                           | Inr v \<Rightarrow> (Inr v, eng)))))"

text \<open>
  The size of the LZ4 frame that \<^verbatim>\<open>compress\<close> makes of an array's bytes, for the two
  arrays whose compression is looked at below. A frame is 15 bytes of header (with the
  content size), 4 bytes of block size, the block, and 4 bytes of end mark. The 16 bytes
  of \<open>[2, 1]\<close> make a block of 14 bytes (one match on the leading zero bytes) and a frame
  of 37; the 56 bytes of \<open>[0, 1, 3, 2, 4, 5, 6]\<close> make a block of 33 bytes (five matches on
  the runs of zero bytes) and a frame of 56. For any other array the value here is the
  size of the frame whose block is stored as it is, which LZ4 does not exceed; no run
  below compresses another array.
\<close>

definition lz4_frame_size :: "elem list \<Rightarrow> nat" where
  "lz4_frame_size arr =
     (if arr = [2, 1] then 37
      else if arr = [0, 1, 3, 2, 4, 5, 6] then 56
      else 23 + 8 * length arr)"

text \<open>
  A stand-in for the surroundings of a run on a small array of a fresh engine: the
  strategy choice is \<^verbatim>\<open>ADAPTIVE\<close>, the chunk size is that of an array below the cache
  size, the cache is empty, the samples are the leading elements, and the regression
  predicts 2 on the history \<open>[2, 2]\<close> (the line through two equal points).
\<close>

definition small_run :: surroundings where
  "small_run =
     \<lparr> predict_strategy = (\<lambda>arr. Inr ADAPTIVE),
       choose_optimal_strategy = (\<lambda>arr. Inr ADAPTIVE),
       adaptive_chunk_size = (\<lambda>n. min n 10000),
       memo_cache = (\<lambda>arr. AdaptiveCache_init 2000),
       random_sample = (\<lambda>arr. take 1000 arr),
       adaptive_sample = (\<lambda>arr. take 1000 arr),
       compressed_size = lz4_frame_size,
       next_chunk_size = (\<lambda>history. 2) \<rparr>"

section \<open>AdaptiveCache: properties\<close>

lemma map_of_deque_free_update: "map_of (AList.update k v al) k = Some v"
  by (simp add: update_conv')

text \<open>
  When the decorator's table holds nothing for \<open>k\<close>, a \<^verbatim>\<open>put(k, v)\<close> that returns is
  followed by a \<^verbatim>\<open>get(k)\<close> that runs the body and reads \<open>v\<close>.
\<close>

theorem get_after_put_unmemoised:
  assumes "put c k v = Inr c'" and "map_of (get_memo c) k = None"
  shows "fst (get c' k) = Some v"
proof -
  from assms(1) have memo: "get_memo c' = get_memo c"
    by (auto simp: put_def Let_def split: if_splits list.splits)
  from assms(1) have "map_of (cache c') k = Some v"
    by (auto simp: put_def Let_def map_of_deque_free_update split: if_splits list.splits)
  with memo assms(2) show ?thesis
    by (simp add: get_def get_body_def)
qed

text \<open>
  C6. After \<^verbatim>\<open>put(k, v)\<close> a following \<^verbatim>\<open>get(k)\<close> should return \<open>v\<close>. On a fresh cache of
  size 1000, \<^verbatim>\<open>get("k")\<close> misses and \<^verbatim>\<open>lru_cache\<close> memoises the answer \<^verbatim>\<open>None\<close>; after
  \<^verbatim>\<open>put("k", 5)\<close> the dict holds 5 under \<^verbatim>\<open>"k"\<close>, and \<^verbatim>\<open>get("k")\<close> still answers \<^verbatim>\<open>None\<close>
  from the decorator's table: the entry that is present is not read.
\<close>

theorem C6_get_after_put_returns_stale_None:
  "(let c0 = (AdaptiveCache_init 1000 :: (string, int) AdaptiveCache);
        (r1, c1) = get c0 ''k''
    in case put c1 ''k'' 5 of
         Inl e \<Rightarrow> None
       | Inr c2 \<Rightarrow> Some (r1, map_of (cache c2) ''k'', fst (get c2 ''k'')))
   = Some (None, Some 5, None)"
  by (simp add: AdaptiveCache_init_def put_def get_def get_body_def deque_append_def
      resize_def should_resize_def Let_def)

text \<open>
  C7. The number of entries should never exceed the capacity, and a \<^verbatim>\<open>put\<close> at capacity
  should evict exactly one entry. On a cache of size 2: \<^verbatim>\<open>put("a", 1)\<close>, \<^verbatim>\<open>put("b", 2)\<close>, a
  hit \<^verbatim>\<open>get("b")\<close> (the history, full, drops \<^verbatim>\<open>"a"\<close> and holds \<^verbatim>\<open>"b"\<close> twice),
  \<^verbatim>\<open>put("c", 3)\<close> (evicts \<^verbatim>\<open>"b"\<close>), \<^verbatim>\<open>put("d", 4)\<close>: the oldest tracked key is \<^verbatim>\<open>"b"\<close> again,
  nothing is evicted, and the cache holds three entries under an unchanged capacity of 2.
\<close>

theorem C7_three_entries_under_capacity_two:
  "map_sum id (\<lambda>c. (cache c, size_c c))
     (run_ops (AdaptiveCache_init 2)
        [Put ''a'' (1::int), Put ''b'' 2, Get ''b'', Put ''c'' 3, Put ''d'' 4])
   = Inr ([(''a'', 1), (''c'', 3), (''d'', 4)], 2)"
  by (simp add: AdaptiveCache_init_def put_def get_def get_body_def deque_append_def
      AList.delete_eq resize_def should_resize_def Let_def)

section \<open>StreamProcessor: properties\<close>

lemma length_deque_append: "length d \<le> m \<Longrightarrow> length (deque_append m d x) \<le> m"
  by (simp add: deque_append_def Let_def)

lemma update_chunk_size_frame:
  "buffer (update_chunk_size p sp) = buffer sp"
  "buffer_maxlen (update_chunk_size p sp) = buffer_maxlen sp"
  by (simp_all add: update_chunk_size_def)

lemma stream_loop_bounded:
  "length (buffer sp) \<le> buffer_maxlen sp \<Longrightarrow>
   list_all (\<lambda>w. length w \<le> buffer_maxlen sp) (fst (stream_loop p sp items)) \<and>
   buffer_maxlen (snd (stream_loop p sp items)) = buffer_maxlen sp \<and>
   length (buffer (snd (stream_loop p sp items))) \<le> buffer_maxlen sp"
proof (induction items arbitrary: sp)
  case Nil
  then show ?case by simp
next
  case (Cons item items)
  let ?sp1 = "sp\<lparr> buffer := deque_append (buffer_maxlen sp) (buffer sp) item \<rparr>"
  have len1: "length (buffer ?sp1) \<le> buffer_maxlen sp"
    using Cons.prems by (simp add: length_deque_append)
  show ?case
  proof (cases "length (buffer ?sp1) \<ge> sp_chunk_size ?sp1")
    case True
    let ?sp2 = "?sp1\<lparr> chunks_processed := chunks_processed ?sp1 + 1,
                        chunk_history := deque_append 5 (chunk_history ?sp1) (length (buffer ?sp1)),
                        buffer := [] \<rparr>"
    let ?sp3 = "update_chunk_size p ?sp2"
    have pre: "length (buffer ?sp3) \<le> buffer_maxlen ?sp3"
      by (simp add: update_chunk_size_frame)
    have ml: "buffer_maxlen ?sp3 = buffer_maxlen sp"
      by (simp add: update_chunk_size_frame)
    from Cons.IH[OF pre] ml len1 True show ?thesis
      by (simp add: Let_def split_beta)
  next
    case False
    have pre: "length (buffer ?sp1) \<le> buffer_maxlen ?sp1"
      using len1 by simp
    from Cons.IH[OF pre] False show ?thesis
      by (simp add: Let_def)
  qed
qed

text \<open>
  C10. Every window that \<^verbatim>\<open>process_stream\<close> emits, on a processor built with
  \<^verbatim>\<open>chunk_size = cs\<close>, holds at most \<open>cs\<close> elements, whatever the adaptive update makes
  of \<^verbatim>\<open>self.chunk_size\<close>: the buffer's \<^verbatim>\<open>maxlen\<close> is set at construction and stays \<open>cs\<close>.
\<close>

theorem C10_windows_within_initial_chunk_size:
  assumes "StreamProcessor_init cs = Inr sp"
  shows "list_all (\<lambda>w. int (length w) \<le> cs) (fst (process_stream predict sp data_stream))
         \<and> int (buffer_maxlen (snd (process_stream predict sp data_stream))) = cs"
proof -
  from assms have cs: "0 \<le> cs" and ml: "buffer_maxlen sp = nat cs" and b: "buffer sp = []"
    by (auto simp: StreamProcessor_init_def split: if_splits)
  have "length (buffer sp) \<le> buffer_maxlen sp" using b by simp
  from stream_loop_bounded[OF this, of predict data_stream]
  have w: "list_all (\<lambda>w. length w \<le> nat cs) (fst (stream_loop predict sp data_stream))"
    and m: "buffer_maxlen (snd (stream_loop predict sp data_stream)) = nat cs"
    and l: "length (buffer (snd (stream_loop predict sp data_stream))) \<le> nat cs"
    using ml by simp_all
  have conv: "\<And>w::elem list. (length w \<le> nat cs) = (int (length w) \<le> cs)"
    using cs by linarith
  from w m l cs show ?thesis
    by (auto simp: process_stream_def Let_def split_beta conv list_all_iff)
qed

text \<open>
  At \<open>cs = 2\<close>, on seven items, with a predictor that asks for 5000: two full windows,
  then the update raises \<^verbatim>\<open>self.chunk_size\<close> to 5000, the deque of length 2 keeps only the
  last two of the remaining three items, and the final flush emits them.
\<close>

lemma StreamProcessor_init_2:
  "StreamProcessor_init 2 =
     Inr \<lparr> sp_chunk_size = 2, buffer = [], buffer_maxlen = 2, chunks_processed = 0,
           last_chunk_size = 2, chunk_history = [] \<rparr>"
  by (simp add: StreamProcessor_init_def)

lemma process_stream_seven_items:
  "process_stream (\<lambda>h. 5000)
     \<lparr> sp_chunk_size = 2, buffer = [], buffer_maxlen = 2, chunks_processed = 0,
       last_chunk_size = 2, chunk_history = [] \<rparr> [3, 4, 1, 2, 9, 8, 7]
   = ([[3, 4], [1, 2], [7, 8]],
      \<lparr> sp_chunk_size = 5000, buffer = [8, 7], buffer_maxlen = 2, chunks_processed = 3,
        last_chunk_size = 2, chunk_history = [2, 2, 2] \<rparr>)"
  by (simp add: process_stream_def update_chunk_size_def deque_append_def Let_def)

theorem C10_windows_within_initial_chunk_size_witness:
  "StreamProcessor_init 2 =
     Inr \<lparr> sp_chunk_size = 2, buffer = [], buffer_maxlen = 2, chunks_processed = 0,
           last_chunk_size = 2, chunk_history = [] \<rparr>
   \<and> fst (process_stream (\<lambda>h. 5000)
          \<lparr> sp_chunk_size = 2, buffer = [], buffer_maxlen = 2, chunks_processed = 0,
            last_chunk_size = 2, chunk_history = [] \<rparr> [3, 4, 1, 2, 9, 8, 7])
       = [[3, 4], [1, 2], [7, 8]]
   \<and> sp_chunk_size (snd (process_stream (\<lambda>h. 5000)
          \<lparr> sp_chunk_size = 2, buffer = [], buffer_maxlen = 2, chunks_processed = 0,
            last_chunk_size = 2, chunk_history = [] \<rparr> [3, 4, 1, 2, 9, 8, 7])) = 5000
   \<and> list_all (\<lambda>w. int (length w) \<le> 2) (fst (process_stream (\<lambda>h. 5000)
          \<lparr> sp_chunk_size = 2, buffer = [], buffer_maxlen = 2, chunks_processed = 0,
            last_chunk_size = 2, chunk_history = [] \<rparr> [3, 4, 1, 2, 9, 8, 7]))
   \<and> int (buffer_maxlen (snd (process_stream (\<lambda>h. 5000)
          \<lparr> sp_chunk_size = 2, buffer = [], buffer_maxlen = 2, chunks_processed = 0,
            last_chunk_size = 2, chunk_history = [] \<rparr> [3, 4, 1, 2, 9, 8, 7]))) = 2"
  using C10_windows_within_initial_chunk_size[OF StreamProcessor_init_2,
      of "\<lambda>h. 5000" "[3, 4, 1, 2, 9, 8, 7]"]
  by (simp add: StreamProcessor_init_2 process_stream_seven_items)

section \<open>Ninther pivot: properties\<close>

text \<open>
  C8 (as amended). From 9 elements on, with \<open>t = n div 3\<close>, the pivot is the median of
  the three values \<open>median (arr[i], arr[i + t], arr[i + 2t])\<close>, \<open>i = 0, 1, 2\<close>: each
  triple takes one element from each third, and only the first three positions of each
  third are read. Below 9 elements the pivot is \<^verbatim>\<open>np.median\<close> of the array.
\<close>

theorem C8_ninther_triples:
  "ninther arr =
     (if length arr < 9 then np_median arr
      else (let t = length arr div 3
            in Some (med3 (med3 (arr ! 0) (arr ! t) (arr ! (2 * t)))
                          (med3 (arr ! 1) (arr ! (1 + t)) (arr ! (1 + 2 * t)))
                          (med3 (arr ! 2) (arr ! (2 + t)) (arr ! (2 + 2 * t))))))"
proof (cases "length arr < 9")
  case True
  then show ?thesis by (simp add: ninther_def)
next
  case False
  define t where "t = length arr div 3"
  have "map (\<lambda>i. median_of [arr ! i, arr ! (i + t), arr ! (i + 2 * t)]) [0..<3]
        = [med3 (arr ! 0) (arr ! t) (arr ! (2 * t)),
           med3 (arr ! 1) (arr ! (1 + t)) (arr ! (1 + 2 * t)),
           med3 (arr ! 2) (arr ! (2 + t)) (arr ! (2 + 2 * t))]"
    by (simp add: upt3 median_of_three)
  with False show ?thesis
    by (simp add: ninther_def np_median_def median_of_three Let_def t_def)
qed

text \<open>
  C8 as stated fails: on \<open>[1, 1, 0, 0, 1, 1, 0, 0, 0]\<close> the thirds \<open>[1, 1, 0]\<close>,
  \<open>[0, 1, 1]\<close>, \<open>[0, 0, 0]\<close> have medians 1, 1, 0, whose median is 1; the code reads the
  triples \<open>(1, 0, 0)\<close>, \<open>(1, 1, 0)\<close>, \<open>(0, 1, 0)\<close>, with medians 0, 1, 0, and returns 0.
\<close>

theorem C8_ninther_is_not_median_of_thirds:
  "ninther [1, 1, 0, 0, 1, 1, 0, 0, 0] = Some 0
   \<and> ninther_of_thirds [1, 1, 0, 0, 1, 1, 0, 0, 0] = Some 1"
  by (simp add: ninther_def ninther_of_thirds_def np_median_def upt3 median_of_three med3_def Let_def)

section \<open>Partitioning: properties\<close>

lemma sort_replicate_snoc:
  "(a::real) \<le> b \<Longrightarrow> sort (replicate n a @ [b]) = replicate n a @ [b]"
  by (rule sorted_sort_id) (simp add: sorted_append)

lemma linspace_two: "linspace 0 100 2 = [0, 100]"
  by (simp add: linspace_def upt_rec)

lemma percentile_0: "arr \<noteq> [] \<Longrightarrow> percentile arr 0 = sort arr ! 0"
  by (simp add: percentile_def Let_def)

lemma percentile_100: "arr \<noteq> [] \<Longrightarrow> percentile arr 100 = sort arr ! (length arr - 1)"
proof -
  assume "arr \<noteq> []"
  then have n: "0 < length arr" by simp
  have f: "nat \<lfloor>real (length arr - 1)\<rfloor> = length arr - 1" by simp
  have m: "min (length arr - 1 + 1) (length arr - 1) = length arr - 1" by simp
  show ?thesis
    by (simp add: percentile_def Let_def f m del: of_nat_diff)
qed

lemma advanced_partition_999_zeros_one:
  "advanced_partition (replicate 999 0 @ [1]) = [replicate 999 0]"
proof -
  let ?arr = "replicate 999 (0::elem) @ [1]"
  have ne: "?arr \<noteq> []" by simp
  have len: "length ?arr = 1000" by simp
  have s: "sort ?arr = ?arr" by (rule sort_replicate_snoc) simp
  have p0: "percentile ?arr 0 = 0"
    by (simp only: percentile_0[OF ne] s) (simp add: nth_append)
  have p100: "percentile ?arr 100 = 1"
    by (simp only: percentile_100[OF ne] s len) (simp add: nth_append)
  have q: "linspace 0 100 (min (length ?arr div 1000 + 1) 10) = [0, 100]"
  proof -
    have "min (length ?arr div 1000 + 1) 10 = 2" by simp
    then show ?thesis by (simp only: linspace_two)
  qed
  show ?thesis
    unfolding advanced_partition_def Let_def q
    by (simp only: len list.map p0 p100) (simp add: upt_rec)
qed

text \<open>
  C3. The partitions of a split should hold every element of the input. On the
  1000-element array of 999 zeros and a single one, \<^verbatim>\<open>_advanced_partition\<close> has the
  pivots \<open>[0, 1]\<close> (the 0th and 100th percentiles) and the single mask
  \<^verbatim>\<open>0 <= x < 1\<close>: it returns one partition of 999 zeros, and the maximum is in none.
\<close>

theorem C3_advanced_partition_drops_maximum:
  "advanced_partition (replicate 999 0 @ [1]) = [replicate 999 0]
   \<and> sum_list (map length (advanced_partition (replicate 999 0 @ [1]))) = 999
   \<and> length (replicate 999 (0::elem) @ [1]) = 1000"
proof -
  have parts: "advanced_partition (replicate 999 0 @ [1]) = [replicate 999 0]"
    by (rule advanced_partition_999_zeros_one)
  have "sum_list (map length [replicate 999 (0::elem)]) = 999" by simp
  with parts show ?thesis by simp
qed

lemma mset_three_way:
  "mset (filter (\<lambda>x. x < p) xs) + mset (filter (\<lambda>x. x = p) xs) + mset (filter (\<lambda>x. x > p) xs)
   = mset (xs :: elem list)"
  by (induction xs) auto

lemma mset_recursive_partition: "mset (concat (recursive_partition arr depth)) = mset arr"
proof (induction arr depth rule: recursive_partition.induct)
  case (1 arr depth)
  show ?case
  proof (cases "length arr \<le> 100 \<or> depth > 10")
    case True
    then show ?thesis by simp
  next
    case False
    show ?thesis
    proof (cases "ninther arr")
      case None
      with False have "length arr < 9"
        by (auto simp: ninther_def np_median_def Let_def split: if_splits)
      with False show ?thesis by simp
    next
      case (Some pivot)
      from "1.IH"(3)[OF False Some] "1.IH"(4)[OF False Some] False Some
      show ?thesis
        using mset_three_way[of pivot arr] by (simp add: add.assoc)
    qed
  qed
qed

lemma mset_concat_nonempty:
  "mset (concat (filter (\<lambda>part. length part > 0) xss)) = mset (concat xss)"
  by (induction xss) auto

text \<open>
  \<^verbatim>\<open>_pivot_tree_partition\<close> does keep every element: the three masks \<open><\<close>, \<open>=\<close>, \<open>>\<close>
  split an array, and dropping the empty parts loses nothing.
\<close>

theorem pivot_tree_partition_mset:
  "mset (concat (pivot_tree_partition arr)) = mset arr"
proof (cases "length arr \<le> 100")
  case True
  then show ?thesis by (simp add: pivot_tree_partition_def)
next
  case False
  then have "pivot_tree_partition arr
             = filter (\<lambda>part. length part > 0) (recursive_partition arr 0)"
    by (simp only: pivot_tree_partition_def if_False)
  then show ?thesis
    by (simp only: mset_concat_nonempty mset_recursive_partition)
qed

lemma linspace_0_100_range:
  assumes "x \<in> set (linspace 0 100 k)"
  shows "0 \<le> x \<and> x \<le> 100"
proof (cases "k = 1")
  case True
  with assms show ?thesis by (simp add: linspace_def)
next
  case False
  define d where "d = real (k - 1)"
  from assms False obtain j where j: "j < k" and x: "x = real j * (100 / d)"
    by (auto simp: linspace_def d_def)
  from j False have k: "1 < k" by linarith
  then have pos: "0 < d" by (simp add: d_def)
  have "real j \<le> d" using j by (simp add: d_def)
  then have "real j * (100 / d) \<le> d * (100 / d)"
    by (intro mult_right_mono) (use pos in simp_all)
  also have "\<dots> = 100" using pos by simp
  finally have "x \<le> 100" using x by simp
  moreover have "0 \<le> x" using x pos by simp
  ultimately show ?thesis by simp
qed

lemma percentile_le_Max:
  assumes ne: "arr \<noteq> []" and q0: "0 \<le> q" and q1: "q \<le> 100"
  shows "percentile arr q \<le> Max (set arr)"
proof -
  define s where "s = sort arr"
  define n where "n = length arr"
  define pos where "pos = q / 100 * real (n - 1)"
  define lo where "lo = nat \<lfloor>pos\<rfloor>"
  define hi where "hi = min (lo + 1) (n - 1)"
  have n: "0 < n" using ne by (simp add: n_def)
  have pos0: "0 \<le> pos" using q0 by (simp add: pos_def)
  have "q / 100 \<le> 1" using q1 by simp
  then have "q / 100 * real (n - 1) \<le> 1 * real (n - 1)" by (intro mult_right_mono) simp_all
  then have pos1: "pos \<le> real (n - 1)" by (simp add: pos_def)
  have fl0: "0 \<le> \<lfloor>pos\<rfloor>" using pos0 by simp
  have lo_eq: "real lo = of_int \<lfloor>pos\<rfloor>" using fl0 by (simp add: lo_def)
  have lo_le: "real lo \<le> pos" unfolding lo_eq by (rule of_int_floor_le)
  have "\<lfloor>pos\<rfloor> \<le> int (n - 1)" using pos1 by (simp add: floor_le_iff)
  then have lo_n: "lo \<le> n - 1" unfolding lo_def by linarith
  have hi_n: "hi < n" using n by (simp add: hi_def)
  have lo_hi: "lo \<le> hi" using lo_n by (simp add: hi_def)
  have "pos < of_int \<lfloor>pos\<rfloor> + 1" by linarith
  then have frac1: "pos - real lo \<le> 1" using lo_eq by linarith
  have srt: "sorted s" by (simp add: s_def)
  have len: "length s = n" by (simp add: s_def n_def)
  have mono: "s ! lo \<le> s ! hi"
    using srt lo_hi hi_n len by (simp add: sorted_nth_mono)
  have "(s ! hi - s ! lo) * (pos - real lo) \<le> (s ! hi - s ! lo) * 1"
    by (intro mult_left_mono) (use mono frac1 in simp_all)
  moreover have "percentile arr q = s ! lo + (s ! hi - s ! lo) * (pos - real lo)"
    by (simp add: percentile_def Let_def s_def n_def pos_def lo_def hi_def)
  ultimately have "percentile arr q \<le> s ! hi" by simp
  moreover have "s ! hi \<in> set s" using hi_n len by simp
  then have "s ! hi \<le> Max (set arr)" by (simp add: s_def)
  ultimately show ?thesis by linarith
qed

text \<open>
  The defect of \<^verbatim>\<open>_advanced_partition\<close> is general: every pivot is at most the maximum
  of the array, and each mask ends with a strict \<open><\<close>, so from 1000 elements on no
  partition holds the maximum.
\<close>

theorem advanced_partition_below_Max:
  assumes big: "1000 \<le> length arr" and x: "x \<in> set (concat (advanced_partition arr))"
  shows "x < Max (set arr)"
proof -
  let ?q = "linspace 0 100 (min (length arr div 1000 + 1) 10)"
  let ?pivots = "map (percentile arr) ?q"
  have ne: "arr \<noteq> []" using big by auto
  from x big obtain i where i: "i < length ?pivots" and lt: "x < ?pivots ! i"
    by (auto simp: advanced_partition_def Let_def)
  have "?q ! i \<in> set ?q" using i by simp
  then have "0 \<le> ?q ! i \<and> ?q ! i \<le> 100" by (rule linspace_0_100_range)
  then have "percentile arr (?q ! i) \<le> Max (set arr)"
    using percentile_le_Max[OF ne] by simp
  moreover have "?pivots ! i = percentile arr (?q ! i)" using i by simp
  ultimately show ?thesis using lt by linarith
qed

theorem advanced_partition_not_permutation:
  assumes "1000 \<le> length arr"
  shows "mset (concat (advanced_partition arr)) \<noteq> mset arr"
proof
  assume eq: "mset (concat (advanced_partition arr)) = mset arr"
  have ne: "arr \<noteq> []" using assms by auto
  then have "Max (set arr) \<in> set arr" by simp
  then have "Max (set arr) \<in># mset arr" by simp
  with eq have "Max (set arr) \<in> set (concat (advanced_partition arr))"
    by (metis set_mset_mset)
  from advanced_partition_below_Max[OF assms this] show False by simp
qed

section \<open>In-place sorts: properties\<close>

lemma sorted_mset_unique:
  "sorted xs \<Longrightarrow> sorted ys \<Longrightarrow> mset xs = mset ys \<Longrightarrow> xs = (ys :: elem list)"
  by (metis properties_for_sort sorted_sort_id)

lemma insort_snoc_greater:
  "sorted (P @ [p]) \<Longrightarrow> key < p \<Longrightarrow> insort key (P @ [p]) = insort key P @ [p :: elem]"
proof (rule sorted_mset_unique)
  assume s: "sorted (P @ [p])" and k: "key < p"
  show "sorted (insort key (P @ [p]))" using s by (simp add: sorted_insort)
  have "sorted P" using s by (simp add: sorted_append)
  then have "sorted (insort key P)" by (simp add: sorted_insort)
  moreover have "\<forall>x\<in>set (insort key P). x \<le> p"
    using s k by (auto simp: set_insort_key sorted_append)
  ultimately show "sorted (insort key P @ [p])" by (simp add: sorted_append)
  show "mset (insort key (P @ [p])) = mset (insort key P @ [p])" by simp
qed

lemma insort_snoc_le:
  "sorted (P @ [p]) \<Longrightarrow> p \<le> key \<Longrightarrow> insort key (P @ [p]) = P @ [p, key :: elem]"
proof (rule sorted_mset_unique)
  assume s: "sorted (P @ [p])" and k: "p \<le> key"
  show "sorted (insort key (P @ [p]))" using s by (simp add: sorted_insort)
  show "sorted (P @ [p, key])" using s k by (auto simp: sorted_append)
  show "mset (insort key (P @ [p])) = mset (P @ [p, key])" by simp
qed

lemma insert_shift_insort:
  "sorted P \<Longrightarrow> insert_shift (P @ h # R) key (length P) = insort key P @ R"
proof (induction P arbitrary: h R rule: rev_induct)
  case Nil
  then show ?case by simp
next
  case (snoc p P)
  have nth: "(P @ [p] @ h # R) ! length P = p" by (simp add: nth_append)
  have srt: "sorted P" using snoc.prems by (simp add: sorted_append)
  show ?case
  proof (cases "key < p")
    case True
    have upd: "(P @ [p] @ h # R)[Suc (length P) := p] = P @ p # p # R"
      by (simp add: list_update_append)
    have "insert_shift ((P @ [p]) @ h # R) key (length (P @ [p]))
          = insert_shift (P @ p # p # R) key (length P)"
      using True nth upd by simp
    also have "\<dots> = insort key P @ p # R" by (rule snoc.IH[OF srt])
    also have "\<dots> = insort key (P @ [p]) @ R"
      using insort_snoc_greater[OF snoc.prems True] by simp
    finally show ?thesis .
  next
    case False
    then have le: "p \<le> key" by simp
    have upd: "(P @ [p] @ h # R)[Suc (length P) := key] = P @ p # key # R"
      by (simp add: list_update_append)
    have "insert_shift ((P @ [p]) @ h # R) key (length (P @ [p])) = P @ p # key # R"
      using False nth upd by simp
    also have "\<dots> = insort key (P @ [p]) @ R"
      using insort_snoc_le[OF snoc.prems le] by simp
    finally show ?thesis .
  qed
qed

lemma sort_snoc: "sort (xs @ [x :: elem]) = insort x (sort xs)"
  by (rule properties_for_sort) (simp_all add: sorted_insort)

lemma insertion_sort_prefix:
  "k < length xs \<Longrightarrow>
   foldl (\<lambda>a i. insert_shift a (a ! i) i) xs [1..<Suc k] = sort (take (Suc k) xs) @ drop (Suc k) xs"
proof (induction k)
  case 0
  then show ?case by (cases xs) simp_all
next
  case (Suc k)
  let ?a = "sort (take (Suc k) xs) @ drop (Suc k) xs"
  have k: "k < length xs" using Suc.prems by simp
  have d: "drop (Suc k) xs = xs ! Suc k # drop (Suc (Suc k)) xs"
    using Suc.prems by (simp add: Cons_nth_drop_Suc)
  have len: "length (sort (take (Suc k) xs)) = Suc k" using Suc.prems by simp
  have nth: "?a ! Suc k = xs ! Suc k"
    using len d by (simp add: nth_append)
  have "foldl (\<lambda>a i. insert_shift a (a ! i) i) xs [1..<Suc (Suc k)]
        = insert_shift ?a (?a ! Suc k) (Suc k)"
    using Suc.IH[OF k] by simp
  also have "\<dots> = insert_shift (sort (take (Suc k) xs) @ xs ! Suc k # drop (Suc (Suc k)) xs)
                      (xs ! Suc k) (length (sort (take (Suc k) xs)))"
    using nth d len by simp
  also have "\<dots> = insort (xs ! Suc k) (sort (take (Suc k) xs)) @ drop (Suc (Suc k)) xs"
    by (rule insert_shift_insort) simp
  also have "insort (xs ! Suc k) (sort (take (Suc k) xs)) = sort (take (Suc (Suc k)) xs)"
  proof -
    have "take (Suc (Suc k)) xs = take (Suc k) xs @ [xs ! Suc k]"
      using Suc.prems by (rule take_Suc_conv_app_nth)
    then show ?thesis by (simp only: sort_snoc)
  qed
  finally show ?case .
qed

text \<open>
  The body of \<^verbatim>\<open>_insertion_sort\<close>, were it to run, would leave the array sorted: its
  contents would be \<open>sort\<close> of the input.
\<close>

lemma insertion_sort_body_sorts: "insertion_sort_body xs = sort xs"
proof (cases "length xs")
  case 0
  then show ?thesis by (simp add: insertion_sort_body_def)
next
  case (Suc k)
  then have "k < length xs" by simp
  from insertion_sort_prefix[OF this] Suc show ?thesis
    by (simp add: insertion_sort_body_def)
qed

lemma heapify_length_mset:
  "n \<le> length arr \<Longrightarrow> length (heapify arr n i) = length arr \<and> mset (heapify arr n i) = mset arr"
proof (induction arr n i rule: heapify.induct)
  case (1 arr n i)
  define l where "l = (if 2 * i + 1 < n \<and> arr ! (2 * i + 1) > arr ! i then 2 * i + 1 else i)"
  define g where "g = (if 2 * i + 2 < n \<and> arr ! (2 * i + 2) > arr ! l then 2 * i + 2 else l)"
  have unfold: "heapify arr n i =
      (if g \<noteq> i then heapify (arr[i := arr ! g, g := arr ! i]) n g else arr)"
    by (subst heapify.simps) (simp only: Let_def l_def g_def)
  show ?case
  proof (cases "g = i")
    case True
    then show ?thesis by (simp add: unfold)
  next
    case False
    then have gi: "i < g" "g < n" by (auto simp: g_def l_def split: if_splits)
    then have bounds: "i < length arr" "g < length arr" using "1.prems" by simp_all
    have pre: "n \<le> length (arr[i := arr ! g, g := arr ! i])" using "1.prems" by simp
    have ih: "length (heapify (arr[i := arr ! g, g := arr ! i]) n g) = length (arr[i := arr ! g, g := arr ! i])
        \<and> mset (heapify (arr[i := arr ! g, g := arr ! i]) n g) = mset (arr[i := arr ! g, g := arr ! i])"
      by (rule "1.IH"[OF refl refl l_def g_def False pre])
    have "mset (arr[i := arr ! g, g := arr ! i]) = mset arr"
      using bounds by (simp add: mset_swap)
    with ih False show ?thesis by (simp add: unfold)
  qed
qed

lemma heapify_build_length_mset:
  "length a = n \<Longrightarrow>
   length (foldl (\<lambda>a i. heapify a n i) a idxs) = n
   \<and> mset (foldl (\<lambda>a i. heapify a n i) a idxs) = mset a"
proof (induction idxs arbitrary: a)
  case Nil
  then show ?case by simp
next
  case (Cons i idxs)
  have "length (heapify a n i) = length a \<and> mset (heapify a n i) = mset a"
    by (rule heapify_length_mset) (simp add: Cons.prems)
  with Cons.IH[of "heapify a n i"] Cons.prems show ?case by simp
qed

lemma heapify_extract_length_mset:
  "length a = n \<Longrightarrow> list_all (\<lambda>i. 0 < i \<and> i < n) idxs \<Longrightarrow>
   length (foldl (\<lambda>a i. heapify (a[0 := a ! i, i := a ! 0]) i 0) a idxs) = n
   \<and> mset (foldl (\<lambda>a i. heapify (a[0 := a ! i, i := a ! 0]) i 0) a idxs) = mset a"
proof (induction idxs arbitrary: a)
  case Nil
  then show ?case by simp
next
  case (Cons i idxs)
  let ?s = "a[0 := a ! i, i := a ! 0]"
  from Cons.prems have i: "0 < i" "i < n" and rest: "list_all (\<lambda>i. 0 < i \<and> i < n) idxs"
    by simp_all
  have sw: "mset ?s = mset a" using i Cons.prems(1) by (simp add: mset_swap)
  have "length (heapify ?s i 0) = length ?s \<and> mset (heapify ?s i 0) = mset ?s"
    by (rule heapify_length_mset) (use i Cons.prems(1) in simp)
  with Cons.IH[of "heapify ?s i 0"] Cons.prems(1) rest sw show ?case by simp
qed

lemma heapsort_array_length_mset:
  "length (heapsort_array arr) = length arr \<and> mset (heapsort_array arr) = mset arr"
proof -
  define n where "n = length arr"
  have idx: "list_all (\<lambda>i. 0 < i \<and> i < n) (rev [1..<n])"
    by (simp add: list_all_iff)
  have b: "length (foldl (\<lambda>a i. heapify a n i) arr (rev [0..<n div 2])) = n
      \<and> mset (foldl (\<lambda>a i. heapify a n i) arr (rev [0..<n div 2])) = mset arr"
    by (rule heapify_build_length_mset) (simp add: n_def)
  from heapify_extract_length_mset[OF conjunct1[OF b] idx] b show ?thesis
    by (simp add: heapsort_array_def Let_def n_def[symmetric])
qed

lemma heapify_restores:
  assumes "n \<le> length arr" and "lo \<le> i"
    and "\<forall>j. lo \<le> j \<and> j < n \<and> j \<noteq> i \<longrightarrow> child_ok arr n j"
    and "\<forall>p. lo \<le> p \<and> (i = 2 * p + 1 \<or> i = 2 * p + 2) \<longrightarrow>
             (2 * i + 1 < n \<longrightarrow> arr ! (2 * i + 1) \<le> arr ! p) \<and> (2 * i + 2 < n \<longrightarrow> arr ! (2 * i + 2) \<le> arr ! p)"
  shows "is_heap (heapify arr n i) n lo"
  using assms
proof (induction arr n i rule: heapify.induct)
  case (1 arr n i)
  define l where "l = (if 2 * i + 1 < n \<and> arr ! (2 * i + 1) > arr ! i then 2 * i + 1 else i)"
  define g where "g = (if 2 * i + 2 < n \<and> arr ! (2 * i + 2) > arr ! l then 2 * i + 2 else l)"
  have unfold: "heapify arr n i =
      (if g \<noteq> i then heapify (arr[i := arr ! g, g := arr ! i]) n g else arr)"
    by (subst heapify.simps) (simp only: Let_def l_def g_def)
  show ?case
  proof (cases "g = i")
    case True
    then have "child_ok arr n i"
      by (auto simp: child_ok_def g_def l_def split: if_splits)
    with "1.prems"(3) have "is_heap arr n lo"
      unfolding is_heap_def by metis
    with True show ?thesis by (simp add: unfold)
  next
    case False
    let ?s = "arr[i := arr ! g, g := arr ! i]"
    from False have g_child: "g = 2 * i + 1 \<or> g = 2 * i + 2" and gn: "g < n"
      by (auto simp: g_def l_def split: if_splits)
    then have ig: "i < g" by auto
    have gi: "arr ! i < arr ! g" using False by (auto simp: g_def l_def split: if_splits)
    have big1: "2 * i + 1 < n \<Longrightarrow> arr ! (2 * i + 1) \<le> arr ! g"
      using False by (auto simp: g_def l_def split: if_splits)
    have big2: "2 * i + 2 < n \<Longrightarrow> arr ! (2 * i + 2) \<le> arr ! g"
      using False by (auto simp: g_def l_def split: if_splits)
    have len: "i < length arr" "g < length arr" using ig gn "1.prems"(1) by simp_all
    have si: "?s ! i = arr ! g" using len ig by (simp add: nth_list_update)
    have sg: "?s ! g = arr ! i" using len by simp
    have sk: "k \<noteq> i \<Longrightarrow> k \<noteq> g \<Longrightarrow> ?s ! k = arr ! k" for k by simp
    have p1: "n \<le> length ?s" using "1.prems"(1) by simp
    have p2: "lo \<le> g" using "1.prems"(2) ig by simp
    have p3: "\<forall>j. lo \<le> j \<and> j < n \<and> j \<noteq> g \<longrightarrow> child_ok ?s n j"
    proof (intro allI impI)
      fix j assume j: "lo \<le> j \<and> j < n \<and> j \<noteq> g"
      show "child_ok ?s n j"
      proof (cases "j = i")
        case True
        have c1: "2 * i + 1 < n \<Longrightarrow> ?s ! (2 * i + 1) \<le> arr ! g"
        proof -
          assume a: "2 * i + 1 < n"
          show ?thesis
          proof (cases "g = 2 * i + 1")
            case True
            then show ?thesis using sg gi by simp
          next
            case False
            then have "?s ! (2 * i + 1) = arr ! (2 * i + 1)" by (intro sk) simp_all
            with big1[OF a] show ?thesis by simp
          qed
        qed
        have c2: "2 * i + 2 < n \<Longrightarrow> ?s ! (2 * i + 2) \<le> arr ! g"
        proof -
          assume a: "2 * i + 2 < n"
          show ?thesis
          proof (cases "g = 2 * i + 2")
            case True
            then show ?thesis using sg gi by simp
          next
            case False
            then have "?s ! (2 * i + 2) = arr ! (2 * i + 2)" by (intro sk) simp_all
            with big2[OF a] show ?thesis by simp
          qed
        qed
        from c1 c2 True si show ?thesis by (simp add: child_ok_def)
      next
        case False
        with j have ok: "child_ok arr n j" using "1.prems"(3) by blast
        have sj: "?s ! j = arr ! j" using False j by (intro sk) simp_all
        have d1: "2 * j + 1 < n \<Longrightarrow> ?s ! (2 * j + 1) \<le> arr ! j"
        proof -
          assume a: "2 * j + 1 < n"
          have ng: "2 * j + 1 \<noteq> g" using g_child False by auto
          show ?thesis
          proof (cases "2 * j + 1 = i")
            case True
            then have "?s ! (2 * j + 1) = arr ! g" using si by simp
            moreover have "arr ! g \<le> arr ! j"
              using "1.prems"(4) j True g_child gn by auto
            ultimately show ?thesis by simp
          next
            case False
            then have "?s ! (2 * j + 1) = arr ! (2 * j + 1)" using ng by (intro sk) simp_all
            with ok a show ?thesis by (simp add: child_ok_def)
          qed
        qed
        have d2: "2 * j + 2 < n \<Longrightarrow> ?s ! (2 * j + 2) \<le> arr ! j"
        proof -
          assume a: "2 * j + 2 < n"
          have ng: "2 * j + 2 \<noteq> g" using g_child False by auto
          show ?thesis
          proof (cases "2 * j + 2 = i")
            case True
            then have "?s ! (2 * j + 2) = arr ! g" using si by simp
            moreover have "arr ! g \<le> arr ! j"
              using "1.prems"(4) j True g_child gn by auto
            ultimately show ?thesis by simp
          next
            case False
            then have "?s ! (2 * j + 2) = arr ! (2 * j + 2)" using ng by (intro sk) simp_all
            with ok a show ?thesis by (simp add: child_ok_def)
          qed
        qed
        from d1 d2 sj show ?thesis by (simp add: child_ok_def)
      qed
    qed
    have okg: "child_ok arr n g"
      using "1.prems"(3) p2 gn ig by auto
    have p4: "\<forall>p. lo \<le> p \<and> (g = 2 * p + 1 \<or> g = 2 * p + 2) \<longrightarrow>
             (2 * g + 1 < n \<longrightarrow> ?s ! (2 * g + 1) \<le> ?s ! p) \<and> (2 * g + 2 < n \<longrightarrow> ?s ! (2 * g + 2) \<le> ?s ! p)"
    proof (intro allI impI)
      fix p assume p: "lo \<le> p \<and> (g = 2 * p + 1 \<or> g = 2 * p + 2)"
      with g_child have "p = i" by auto
      then have sp: "?s ! p = arr ! g" using si by simp
      have e1: "?s ! (2 * g + 1) = arr ! (2 * g + 1)" using ig by (intro sk) simp_all
      have e2: "?s ! (2 * g + 2) = arr ! (2 * g + 2)" using ig by (intro sk) simp_all
      from okg have "(2 * g + 1 < n \<longrightarrow> arr ! (2 * g + 1) \<le> arr ! g) \<and> (2 * g + 2 < n \<longrightarrow> arr ! (2 * g + 2) \<le> arr ! g)"
        by (simp only: child_ok_def)
      then show "(2 * g + 1 < n \<longrightarrow> ?s ! (2 * g + 1) \<le> ?s ! p) \<and> (2 * g + 2 < n \<longrightarrow> ?s ! (2 * g + 2) \<le> ?s ! p)"
        by (simp only: sp e1 e2)
    qed
    have "is_heap (heapify ?s n g) n lo"
      by (rule "1.IH"[OF refl refl l_def g_def False p1 p2 p3 p4])
    with False show ?thesis by (simp add: unfold)
  qed
qed

lemma heapify_frame:
  "n \<le> length arr \<Longrightarrow> drop n (heapify arr n i) = drop n arr"
proof (induction arr n i rule: heapify.induct)
  case (1 arr n i)
  define l where "l = (if 2 * i + 1 < n \<and> arr ! (2 * i + 1) > arr ! i then 2 * i + 1 else i)"
  define g where "g = (if 2 * i + 2 < n \<and> arr ! (2 * i + 2) > arr ! l then 2 * i + 2 else l)"
  have unfold: "heapify arr n i =
      (if g \<noteq> i then heapify (arr[i := arr ! g, g := arr ! i]) n g else arr)"
    by (subst heapify.simps) (simp only: Let_def l_def g_def)
  show ?case
  proof (cases "g = i")
    case True
    then show ?thesis by (simp add: unfold)
  next
    case False
    then have gi: "i < g" "g < n" by (auto simp: g_def l_def split: if_splits)
    have pre: "n \<le> length (arr[i := arr ! g, g := arr ! i])" using "1.prems" by simp
    have "drop n (heapify (arr[i := arr ! g, g := arr ! i]) n g) = drop n (arr[i := arr ! g, g := arr ! i])"
      by (rule "1.IH"[OF refl refl l_def g_def False pre])
    also have "\<dots> = drop n arr" using gi by simp
    finally show ?thesis using False by (simp add: unfold)
  qed
qed

lemma heapify_take_mset:
  assumes "n \<le> length arr"
  shows "mset (take n (heapify arr n i)) = mset (take n arr)"
proof -
  have "mset (take n (heapify arr n i)) + mset (drop n (heapify arr n i)) = mset (heapify arr n i)"
    by (metis append_take_drop_id mset_append)
  moreover have "mset (take n arr) + mset (drop n arr) = mset arr"
    by (metis append_take_drop_id mset_append)
  ultimately have "mset (take n (heapify arr n i)) + mset (drop n arr)
                   = mset (take n arr) + mset (drop n arr)"
    using heapify_frame[OF assms, of i] heapify_length_mset[OF assms, of i] by simp
  then show ?thesis by (simp only: add_right_cancel)
qed

lemma build_heap:
  "length a = n \<Longrightarrow> is_heap a n k \<Longrightarrow>
   is_heap (foldl (\<lambda>a i. heapify a n i) a (rev [0..<k])) n 0
   \<and> length (foldl (\<lambda>a i. heapify a n i) a (rev [0..<k])) = n"
proof (induction k arbitrary: a)
  case 0
  then show ?case by simp
next
  case (Suc k)
  have len: "n \<le> length a" using Suc.prems(1) by simp
  have ex: "\<forall>j. k \<le> j \<and> j < n \<and> j \<noteq> k \<longrightarrow> child_ok a n j"
    using Suc.prems(2) by (auto simp: is_heap_def)
  have br: "\<forall>p. k \<le> p \<and> (k = 2 * p + 1 \<or> k = 2 * p + 2) \<longrightarrow>
             (2 * k + 1 < n \<longrightarrow> a ! (2 * k + 1) \<le> a ! p) \<and> (2 * k + 2 < n \<longrightarrow> a ! (2 * k + 2) \<le> a ! p)"
    by auto
  have h: "is_heap (heapify a n k) n k"
    by (rule heapify_restores[OF len order_refl ex br])
  have l: "length (heapify a n k) = n"
    using heapify_length_mset[OF len, of k] Suc.prems(1) by simp
  from Suc.IH[OF l h] show ?case by simp
qed

lemma leaves_are_heap: "is_heap a n (n div 2)"
  by (auto simp: is_heap_def child_ok_def)

lemma heap_root_max:
  assumes "is_heap a m 0" and "j < m"
  shows "a ! j \<le> a ! 0"
  using assms(2)
proof (induction j rule: less_induct)
  case (less j)
  show ?case
  proof (cases "j = 0")
    case True
    then show ?thesis by simp
  next
    case False
    define p where "p = (j - 1) div 2"
    have pj: "p < j" using False unfolding p_def by linarith
    have jc: "j = 2 * p + 1 \<or> j = 2 * p + 2" using False unfolding p_def by presburger
    have pm: "p < m" using pj less.prems by simp
    from assms(1) pm have "child_ok a m p" by (simp add: is_heap_def)
    with jc less.prems have "a ! j \<le> a ! p" by (auto simp: child_ok_def)
    also have "a ! p \<le> a ! 0" by (rule less.IH[OF pj pm])
    finally show ?thesis .
  qed
qed

lemma extract_step:
  assumes len: "length a = n" and i0: "0 < i" and i1: "i < n"
    and heap: "is_heap a (Suc i) 0"
    and srt: "sorted (drop (Suc i) a)"
    and le: "\<forall>x\<in>set (take (Suc i) a). \<forall>y\<in>set (drop (Suc i) a). x \<le> y"
  shows "length (heapify (a[0 := a ! i, i := a ! 0]) i 0) = n
       \<and> is_heap (heapify (a[0 := a ! i, i := a ! 0]) i 0) i 0
       \<and> sorted (drop i (heapify (a[0 := a ! i, i := a ! 0]) i 0))
       \<and> (\<forall>x\<in>set (take i (heapify (a[0 := a ! i, i := a ! 0]) i 0)).
            \<forall>y\<in>set (drop i (heapify (a[0 := a ! i, i := a ! 0]) i 0)). x \<le> y)"
proof -
  define s where "s = a[0 := a ! i, i := a ! 0]"
  define a' where "a' = heapify s i 0"
  have ls: "length s = n" by (simp add: s_def len)
  have il: "i \<le> length s" using i1 ls by simp
  have s0: "s ! 0 = a ! i" using i0 i1 len by (simp add: s_def)
  have si: "s ! i = a ! 0" using i1 len by (simp add: s_def)
  have sk: "k \<noteq> 0 \<Longrightarrow> k \<noteq> i \<Longrightarrow> s ! k = a ! k" for k by (simp add: s_def)
  have la: "length a' = n"
    using heapify_length_mset[OF il, of 0] ls by (simp add: a'_def)
  have ex: "\<forall>j. 0 \<le> j \<and> j < i \<and> j \<noteq> 0 \<longrightarrow> child_ok s i j"
  proof (intro allI impI)
    fix j assume j: "0 \<le> j \<and> j < i \<and> j \<noteq> 0"
    then have ok: "child_ok a (Suc i) j" using heap by (simp add: is_heap_def)
    have sj: "s ! j = a ! j" using j by (intro sk) simp_all
    have c1: "2 * j + 1 < i \<Longrightarrow> s ! (2 * j + 1) \<le> s ! j"
    proof -
      assume c: "2 * j + 1 < i"
      then have "s ! (2 * j + 1) = a ! (2 * j + 1)" by (intro sk) simp_all
      with ok c sj show ?thesis by (simp add: child_ok_def)
    qed
    have c2: "2 * j + 2 < i \<Longrightarrow> s ! (2 * j + 2) \<le> s ! j"
    proof -
      assume c: "2 * j + 2 < i"
      then have "s ! (2 * j + 2) = a ! (2 * j + 2)" by (intro sk) simp_all
      with ok c sj show ?thesis by (simp add: child_ok_def)
    qed
    from c1 c2 show "child_ok s i j" by (simp add: child_ok_def)
  qed
  have br: "\<forall>p. 0 \<le> p \<and> (0 = 2 * p + 1 \<or> 0 = 2 * p + 2) \<longrightarrow>
             (2 * 0 + 1 < i \<longrightarrow> s ! (2 * 0 + 1) \<le> s ! p) \<and> (2 * 0 + 2 < i \<longrightarrow> s ! (2 * 0 + 2) \<le> s ! p)"
    by simp
  have ha: "is_heap a' i 0"
    unfolding a'_def by (rule heapify_restores[OF il order_refl ex br])
  have dr: "drop i a' = a ! 0 # drop (Suc i) a"
  proof -
    have "drop i a' = drop i s" unfolding a'_def by (rule heapify_frame[OF il])
    also have "\<dots> = s ! i # drop (Suc i) s" using i1 ls by (simp add: Cons_nth_drop_Suc)
    also have "drop (Suc i) s = drop (Suc i) a" by (simp add: s_def)
    finally show ?thesis using si by simp
  qed
  have idx: "a ! m \<in> set (take (Suc i) a)" if "m < Suc i" for m
  proof -
    from that have "m < length (take (Suc i) a)" using len i1 by simp
    then have "take (Suc i) a ! m \<in> set (take (Suc i) a)" by (rule nth_mem)
    then show ?thesis using that by simp
  qed
  have a0: "a ! 0 \<in> set (take (Suc i) a)" by (rule idx) simp
  have sorted_tail: "sorted (drop i a')"
    using dr srt le a0 by simp
  have pre_set: "set (take i a') = set (take i s)"
    using heapify_take_mset[OF il, of 0] unfolding a'_def by (metis set_mset_mset)
  have in_pre: "x \<in> set (take (Suc i) a) \<and> x \<le> a ! 0" if "x \<in> set (take i s)" for x
  proof -
    from that obtain k where k: "k < i" and x: "x = s ! k"
      using ls i1 by (auto simp: in_set_conv_nth)
    show ?thesis
    proof (cases "k = 0")
      case True
      then have "x = a ! i" using x s0 by simp
      then show ?thesis using idx[of i] heap_root_max[OF heap, of i] by simp
    next
      case False
      then have "x = a ! k" using x k by (simp add: sk)
      then show ?thesis using idx[of k] heap_root_max[OF heap, of k] k by simp
    qed
  qed
  have bound: "\<forall>x\<in>set (take i a'). \<forall>y\<in>set (drop i a'). x \<le> y"
    using in_pre le by (auto simp: pre_set dr)
  from la ha sorted_tail bound show ?thesis by (simp add: a'_def s_def)
qed

lemma extract_all:
  "length a = n \<Longrightarrow> i < n \<Longrightarrow> is_heap a (Suc i) 0 \<Longrightarrow> sorted (drop (Suc i) a) \<Longrightarrow>
   \<forall>x\<in>set (take (Suc i) a). \<forall>y\<in>set (drop (Suc i) a). x \<le> y \<Longrightarrow>
   sorted (foldl (\<lambda>a i. heapify (a[0 := a ! i, i := a ! 0]) i 0) a (rev [1..<Suc i]))"
proof (induction i arbitrary: a)
  case 0
  have "a = take 1 a @ drop 1 a" by simp
  moreover have "sorted (take 1 a @ drop 1 a)"
    using "0.prems" by (simp add: sorted_append take_Suc_conv_app_nth)
  ultimately show ?case by simp
next
  case (Suc i)
  let ?a' = "heapify (a[0 := a ! Suc i, Suc i := a ! 0]) (Suc i) 0"
  from extract_step[OF Suc.prems(1) _ Suc.prems(2) Suc.prems(3) Suc.prems(4) Suc.prems(5)]
  have st: "length ?a' = n" "is_heap ?a' (Suc i) 0" "sorted (drop (Suc i) ?a')"
    "\<forall>x\<in>set (take (Suc i) ?a'). \<forall>y\<in>set (drop (Suc i) ?a'). x \<le> y"
    by simp_all
  have "i < n" using Suc.prems(2) by simp
  from Suc.IH[OF st(1) this st(2) st(3) st(4)] show ?case by simp
qed

text \<open>The in-place heapsort leaves the array sorted: its contents are \<open>sort\<close> of the input.\<close>

lemma heapsort_array_sorts: "heapsort_array arr = sort arr"
proof -
  define n where "n = length arr"
  define built where "built = foldl (\<lambda>a i. heapify a n i) arr (rev [0..<n div 2])"
  have b: "is_heap built n 0 \<and> length built = n"
    unfolding built_def by (rule build_heap) (simp_all add: n_def leaves_are_heap)
  have srt: "sorted (foldl (\<lambda>a i. heapify (a[0 := a ! i, i := a ! 0]) i 0) built (rev [1..<n]))"
  proof (cases n)
    case 0
    then show ?thesis using b by simp
  next
    case (Suc m)
    have "sorted (foldl (\<lambda>a i. heapify (a[0 := a ! i, i := a ! 0]) i 0) built (rev [1..<Suc m]))"
      by (rule extract_all[of built n]) (use b Suc in simp_all)
    then show ?thesis using Suc by simp
  qed
  have eq: "heapsort_array arr = foldl (\<lambda>a i. heapify (a[0 := a ! i, i := a ! 0]) i 0) built (rev [1..<n])"
    by (simp add: heapsort_array_def Let_def n_def built_def)
  have "mset (heapsort_array arr) = mset arr"
    using heapsort_array_length_mset by simp
  then show ?thesis
    using srt eq by (metis properties_for_sort)
qed

text \<open>
  The memory-efficient path never assigns to the array it is given: it raises, or (on
  an empty array with a chunk size that is not 0) returns an empty result.
\<close>

lemma memory_efficient_loop_raises:
  "idxs \<noteq> [] \<Longrightarrow> memory_efficient_loop chunk_size idxs arr result = Inl TypeError"
  by (cases idxs) (simp_all add: np_sort_out_def)

lemma memory_efficient_arrays_cases:
  "memory_efficient_arrays chunk_size arr =
     (if chunk_size = 0 then Inl ValueError
      else if arr = [] then Inr ([], [])
      else Inl TypeError)"
proof (cases "chunk_size = 0")
  case True
  then show ?thesis by (simp add: memory_efficient_arrays_def range_step_def)
next
  case False
  show ?thesis
  proof (cases "arr = []")
    case True
    with False show ?thesis by (simp add: memory_efficient_arrays_def range_step_def)
  next
    case ne: False
    then have "0 < length arr" by simp
    then have "chunk_size \<le> length arr + chunk_size - 1" by linarith
    then have "0 < (length arr + chunk_size - 1) div chunk_size"
      using False by (simp add: div_greater_zero_iff)
    then have "map (\<lambda>k. k * chunk_size) [0..<(length arr + chunk_size - 1) div chunk_size] \<noteq> []"
      by simp
    from memory_efficient_loop_raises[OF this] False ne show ?thesis
      by (simp add: memory_efficient_arrays_def range_step_def)
  qed
qed

lemma memory_efficient_sort_leaves_input:
  assumes "arr < next_ref h"
  shows "cells (fst (memory_efficient_sort chunk_size h arr)) arr = cells h arr"
  using assms
  by (auto simp: memory_efficient_sort_def alloc_def memory_efficient_arrays_cases Let_def)

text \<open>
  C9. On the array \<open>[3, 1, 2, 0]\<close> at reference 0, with chunks of 2, the memory-efficient
  path raises \<^verbatim>\<open>TypeError\<close> at its first chunk: the input array still holds
  \<open>[3, 1, 2, 0]\<close>, where the claim has it hold \<open>[1, 3, 0, 2]\<close>, and the only other object is
  the result array of zeros. \<^verbatim>\<open>_insertion_sort\<close> on the same array raises \<^verbatim>\<open>TypingError\<close> and
  leaves the heap as it was, where the claim has the array hold \<open>[0, 1, 2, 3]\<close>.
  \<^verbatim>\<open>_heapsort\<close> does what the claim says: it returns the object it was given, holding
  \<open>[0, 1, 2, 3]\<close>.
\<close>

theorem C9_only_heapsort_writes_into_its_argument:
  "memory_efficient_sort 2 \<lparr> cells = (\<lambda>r. []) (0 := [3, 1, 2, 0]), next_ref = 1 \<rparr> 0
     = (\<lparr> cells = (\<lambda>r. []) (0 := [3, 1, 2, 0], 1 := [0, 0, 0, 0]), next_ref = 2 \<rparr>, Inl TypeError)
   \<and> insertion_sort \<lparr> cells = (\<lambda>r. []) (0 := [3, 1, 2, 0]), next_ref = 1 \<rparr> 0
     = (\<lparr> cells = (\<lambda>r. []) (0 := [3, 1, 2, 0]), next_ref = 1 \<rparr>, Inl TypingError)
   \<and> heapsort \<lparr> cells = (\<lambda>r. []) (0 := [3, 1, 2, 0]), next_ref = 1 \<rparr> 0
     = (\<lparr> cells = (\<lambda>r. []) (0 := [0, 1, 2, 3]), next_ref = 1 \<rparr>, 0)"
proof (intro conjI)
  show "memory_efficient_sort 2 \<lparr> cells = (\<lambda>r. []) (0 := [3, 1, 2, 0]), next_ref = 1 \<rparr> 0
     = (\<lparr> cells = (\<lambda>r. []) (0 := [3, 1, 2, 0], 1 := [0, 0, 0, 0]), next_ref = 2 \<rparr>, Inl TypeError)"
    by (simp add: memory_efficient_sort_def alloc_def memory_efficient_arrays_cases Let_def
        numeral_eq_Suc)
  show "insertion_sort \<lparr> cells = (\<lambda>r. []) (0 := [3, 1, 2, 0]), next_ref = 1 \<rparr> 0
     = (\<lparr> cells = (\<lambda>r. []) (0 := [3, 1, 2, 0]), next_ref = 1 \<rparr>, Inl TypingError)"
    by (simp add: insertion_sort_def insertion_sort_call_def)
  have "sort [3, 1, 2, 0 :: elem] = [0, 1, 2, 3]" by simp
  then show "heapsort \<lparr> cells = (\<lambda>r. []) (0 := [3, 1, 2, 0]), next_ref = 1 \<rparr> 0
     = (\<lparr> cells = (\<lambda>r. []) (0 := [0, 1, 2, 3]), next_ref = 1 \<rparr>, 0)"
    by (simp add: heapsort_def heapsort_array_sorts)
qed

section \<open>The bucket-count heuristic: properties\<close>

lemma np_mean_replicate: "0 < n \<Longrightarrow> np_mean (replicate n x) = x"
  by (simp add: np_mean_def sum_list_replicate)

lemma np_std_replicate: "0 < n \<Longrightarrow> np_std (replicate n x) = 0"
  by (simp add: np_std_def np_mean_replicate map_replicate sum_list_replicate)

lemma np_ptp_replicate: "0 < n \<Longrightarrow> np_ptp (replicate n x) = 0"
  by (simp add: np_ptp_def)

text \<open>
  C4. From 1000 elements on, the heuristic should return a count of at least 1. On an
  array of 1000 zeros, with a fresh cache of 2000 entries, the sample is 1000 zeros:
  its standard deviation and its range are both 0, \<^verbatim>\<open>std_dev < range_size / 100\<close> is
  false, \<^verbatim>\<open>std_dev / range_size\<close> divides zero by zero, and the call raises
  \<^verbatim>\<open>ValueError\<close> instead of returning a count.
\<close>

theorem C4_equal_values_raise_ValueError:
  "fst (optimize_bucket_count (AdaptiveCache_init 2000) (replicate 1000 0) (replicate 1000 0))
   = Inl ValueError"
proof -
  have s: "np_std (replicate 1000 0) = 0" by (rule np_std_replicate) simp
  have p: "np_ptp (replicate 1000 0) = 0" by (rule np_ptp_replicate) simp
  have g: "get (AdaptiveCache_init 2000 :: (nat \<times> int, nat) AdaptiveCache) (1000, 0)
           = (None, (AdaptiveCache_init 2000) \<lparr> misses := 1, get_memo := [((1000, 0), None)] \<rparr>)"
    by (simp add: get_def get_body_def AdaptiveCache_init_def resize_def should_resize_def)
  show ?thesis
    by (simp add: optimize_bucket_count_def Let_def s p g)
qed

text \<open>
  In exact arithmetic that is the only way for the heuristic to miss: a sample with a
  positive range has a variance of at least \<open>range\<^sup>2 / (2 m)\<close>, \<open>m\<close> its length (the
  maximum and the minimum alone contribute that much), so
  \<open>sqrt n * (std / range) * 2 \<ge> sqrt (2 n / m) \<ge> 1\<close>, and \<open>n / log\<^sub>2 n \<ge> 1\<close>. Rounding,
  underflow and overflow of float64 are outside this model.
\<close>

lemma sum_list_two_members:
  assumes "a \<in> set xs" and "b \<in> set xs" and "a \<noteq> b" and "\<And>x. 0 \<le> f x"
  shows "f a + f b \<le> sum_list (map (f :: real \<Rightarrow> real) xs)"
proof -
  have nonneg: "0 \<le> sum_list (map f ys)" for ys :: "real list"
    by (induction ys) (simp_all add: assms(4) add_nonneg_nonneg)
  have one: "c \<in> set ys \<Longrightarrow> f c \<le> sum_list (map f ys)" for c and ys :: "real list"
  proof (induction ys)
    case Nil
    then show ?case by simp
  next
    case (Cons y ys)
    then show ?case using nonneg[of ys] assms(4)[of y] by auto
  qed
  from assms(1,2,3) show ?thesis
  proof (induction xs)
    case Nil
    then show ?case by simp
  next
    case (Cons y ys)
    consider "y = a" | "y = b" | "y \<noteq> a" "y \<noteq> b" by blast
    then show ?case
    proof cases
      case 1
      with Cons.prems have "b \<in> set ys" by auto
      from one[OF this] 1 show ?thesis by simp
    next
      case 2
      with Cons.prems have "a \<in> set ys" by auto
      from one[OF this] 2 show ?thesis by simp
    next
      case 3
      with Cons.prems have "a \<in> set ys" "b \<in> set ys" by auto
      from Cons.IH[OF this Cons.prems(3)] assms(4)[of y] show ?thesis by simp
    qed
  qed
qed

lemma two_squares: "(a - b)\<^sup>2 / 2 \<le> (a - m)\<^sup>2 + (b - m)\<^sup>2" for a b m :: real
proof -
  have "2 * ((a - m)\<^sup>2 + (b - m)\<^sup>2) - (a - b)\<^sup>2 = ((a - m) + (b - m))\<^sup>2"
    by (simp add: power2_eq_square algebra_simps)
  moreover have "0 \<le> ((a - m) + (b - m))\<^sup>2" by simp
  ultimately have "(a - b)\<^sup>2 \<le> 2 * ((a - m)\<^sup>2 + (b - m)\<^sup>2)" by linarith
  then show ?thesis by simp
qed

lemma sum_list_squares_nonneg: "0 \<le> sum_list (map (\<lambda>x. (x - m)\<^sup>2) (xs :: real list))"
  by (induction xs) (simp_all add: add_nonneg_nonneg)

lemma np_std_ge_range:
  assumes "xs \<noteq> []" and "0 < np_ptp xs"
  shows "(np_ptp xs)\<^sup>2 / (2 * real (length xs)) \<le> (np_std xs)\<^sup>2"
proof -
  define a where "a = Max (set xs)"
  define b where "b = Min (set xs)"
  define m where "m = np_mean xs"
  have a: "a \<in> set xs" and b: "b \<in> set xs" using assms(1) by (simp_all add: a_def b_def)
  have ne: "a \<noteq> b" using assms(2) by (auto simp: np_ptp_def a_def b_def)
  have len: "0 < real (length xs)" using assms(1) by simp
  have "(a - b)\<^sup>2 / 2 \<le> (a - m)\<^sup>2 + (b - m)\<^sup>2" by (rule two_squares)
  also have "\<dots> \<le> sum_list (map (\<lambda>x. (x - m)\<^sup>2) xs)"
    by (rule sum_list_two_members[OF a b ne]) simp
  finally have le: "(a - b)\<^sup>2 / 2 \<le> sum_list (map (\<lambda>x. (x - m)\<^sup>2) xs)" .
  have "(a - b)\<^sup>2 / 2 / real (length xs) \<le> sum_list (map (\<lambda>x. (x - m)\<^sup>2) xs) / real (length xs)"
    by (rule divide_right_mono[OF le]) simp
  moreover have "(a - b)\<^sup>2 / 2 / real (length xs) = (a - b)\<^sup>2 / (2 * real (length xs))"
    by simp
  moreover have "0 \<le> sum_list (map (\<lambda>x. (x - m)\<^sup>2) xs) / real (length xs)"
    by (intro divide_nonneg_nonneg sum_list_squares_nonneg) simp
  then have "(np_std xs)\<^sup>2 = sum_list (map (\<lambda>x. (x - m)\<^sup>2) xs) / real (length xs)"
    by (simp add: np_std_def m_def)
  moreover have "np_ptp xs = a - b" by (simp add: np_ptp_def a_def b_def)
  ultimately show ?thesis by simp
qed

lemma heuristic_value_ge_1:
  assumes ne: "sample \<noteq> []" and r: "0 < np_ptp sample"
    and m: "length sample \<le> n" and n: "1000 \<le> n"
  shows "1 \<le> min (sqrt (real n) * (np_std sample / np_ptp sample) * 2) (real n / log 2 (real n))"
proof -
  define R where "R = np_ptp sample"
  define s where "s = np_std sample"
  define k where "k = real (length sample)"
  have k: "0 < k" "k \<le> real n" using ne m by (simp_all add: k_def)
  have s0: "0 \<le> s"
    unfolding s_def np_std_def
    by (intro real_sqrt_ge_zero divide_nonneg_nonneg sum_list_squares_nonneg) simp
  have R: "0 < R" using r by (simp add: R_def)
  have "R\<^sup>2 / (2 * k) \<le> s\<^sup>2"
    using np_std_ge_range[OF ne r] by (simp add: R_def s_def k_def)
  then have "R\<^sup>2 \<le> s\<^sup>2 * (2 * k)" using k by (simp add: pos_divide_le_eq)
  also have "\<dots> \<le> s\<^sup>2 * (2 * real n)" using k by (intro mult_left_mono) simp_all
  finally have "R\<^sup>2 \<le> s\<^sup>2 * (2 * real n)" .
  also have "\<dots> \<le> s\<^sup>2 * (4 * real n)" by (intro mult_left_mono) simp_all
  also have "\<dots> = (sqrt (real n) * s * 2)\<^sup>2" by (simp add: power_mult_distrib)
  finally have sq: "R\<^sup>2 \<le> (sqrt (real n) * s * 2)\<^sup>2" .
  have "0 \<le> sqrt (real n) * s * 2" using s0 by simp
  with sq have "R \<le> sqrt (real n) * s * 2" by (rule power2_le_imp_le)
  then have "1 \<le> sqrt (real n) * s * 2 / R" using R by (simp add: pos_le_divide_eq)
  then have first: "1 \<le> sqrt (real n) * (s / R) * 2" by (simp add: algebra_simps)
  have "real n < 2 ^ n" by (rule of_nat_less_two_power)
  then have "log 2 (real n) < log 2 (2 ^ n)" using n by (simp add: log_less_cancel_iff del: log_pow_cancel)
  then have l1: "log 2 (real n) < real n" by simp
  have "log 2 1 < log 2 (real n)" using n by (simp add: log_less_cancel_iff del: log_one)
  then have l0: "0 < log 2 (real n)" by simp
  have second: "1 \<le> real n / log 2 (real n)" using l0 l1 by (simp add: pos_le_divide_eq)
  from first second show ?thesis by (simp add: R_def s_def)
qed

lemma np_ptp_nonneg: "xs \<noteq> [] \<Longrightarrow> 0 \<le> np_ptp xs"
  by (simp add: np_ptp_def)

lemma nat_floor_ge_1: "1 \<le> (x :: real) \<Longrightarrow> 1 \<le> nat \<lfloor>x\<rfloor>"
proof -
  assume "1 \<le> x"
  then have "1 \<le> \<lfloor>x\<rfloor>" by (simp add: le_floor_iff)
  then show ?thesis by linarith
qed

lemma put_result: "(case put c k v of Inl e \<Rightarrow> (Inl e, c) | Inr c2 \<Rightarrow> (Inr v, c2)) = (Inr w, c') \<Longrightarrow> w = v"
  by (auto split: sum.splits)

lemma optimize_bucket_count_ge_1_exact:
  assumes n: "1000 \<le> length arr" and ne: "sample \<noteq> []" and m: "length sample \<le> length arr"
    and res: "fst (optimize_bucket_count c sample arr) = Inr k"
  shows "1 \<le> k"
proof -
  define key where "key = (length arr, round (100 * np_std arr))"
  define cached where "cached = fst (get c key)"
  define c1 where "c1 = snd (get c key)"
  have sq: "1 \<le> sqrt (real (length arr))" using n by simp
  show ?thesis
  proof (cases "case cached of None \<Rightarrow> None | Some v \<Rightarrow> if v = 0 then None else Some v")
    case (Some v)
    then have "v \<noteq> 0" by (auto split: option.splits if_splits)
    moreover from res n Some have "k = v"
      by (simp add: optimize_bucket_count_def Let_def split_beta key_def cached_def)
    ultimately show ?thesis by simp
  next
    case None
    show ?thesis
    proof (cases "np_std sample < np_ptp sample / 100")
      case True
      with res n None have "k = nat \<lfloor>sqrt (real (length arr))\<rfloor>"
        by (auto simp: optimize_bucket_count_def Let_def split_beta key_def cached_def
            split: sum.splits)
      with nat_floor_ge_1[OF sq] show ?thesis by simp
    next
      case False
      show ?thesis
      proof (cases "np_ptp sample = 0")
        case True
        with res n None False show ?thesis
          by (simp add: optimize_bucket_count_def Let_def split_beta key_def cached_def)
      next
        case nz: False
        with np_ptp_nonneg[OF ne] have pos: "0 < np_ptp sample" by simp
        from res n None False nz
        have "k = nat \<lfloor>min (sqrt (real (length arr)) * (np_std sample / np_ptp sample) * 2)
                           (real (length arr) / log 2 (real (length arr)))\<rfloor>"
          by (auto simp: optimize_bucket_count_def Let_def split_beta key_def cached_def
              split: sum.splits)
        with nat_floor_ge_1[OF heuristic_value_ge_1[OF ne pos m n]] show ?thesis by simp
      qed
    qed
  qed
qed

section \<open>The sorting paths: what they return\<close>

text \<open>Splitting an array loses nothing.\<close>

lemma concat_split_at_sizes: "concat (split_at_sizes ks ary) = take (sum_list ks) ary"
proof (induction ks arbitrary: ary)
  case Nil
  then show ?case by simp
next
  case (Cons k ks)
  have "take k ary @ take (sum_list ks) (drop k ary) = take (k + sum_list ks) ary"
    by (simp add: take_add)
  with Cons show ?case by simp
qed

lemma concat_array_split:
  assumes "0 < sections"
  shows "concat (array_split ary sections) = ary"
proof -
  define n where "n = length ary"
  have "n mod sections \<le> sections" using assms by (simp add: less_imp_le)
  then have "(n mod sections) * (n div sections + 1) + (sections - n mod sections) * (n div sections)
        = sections * (n div sections) + n mod sections"
    by (simp add: algebra_simps diff_mult_distrib flip: add_mult_distrib)
  then have "sum_list (replicate (n mod sections) (n div sections + 1)
                       @ replicate (sections - n mod sections) (n div sections)) = n"
    by (simp add: sum_list_replicate)
  then show ?thesis
    by (simp add: array_split_def Let_def concat_split_at_sizes n_def del: replicate_Suc)
qed

lemma mset_concat_remove1:
  "m \<in> set heap \<Longrightarrow>
   mset (concat (map f heap)) = mset (f m) + mset (concat (map f (remove1 m heap)))"
  by (induction heap) auto

text \<open>
  For stating what the merge loop keeps: the elements that a heap entry still stands
  for, which are its value and everything after its position in its array.
\<close>

definition rest_of :: "elem list list \<Rightarrow> elem \<times> nat \<times> nat \<Rightarrow> elem list" where
  "rest_of arrays entry = (case entry of (val, arr_idx, elem_idx) \<Rightarrow> val # drop (Suc elem_idx) (arrays ! arr_idx))"

lemma mset_merge_loop:
  "mset (merge_loop arrays heap merged)
   = mset merged + mset (concat (map (rest_of arrays) heap))"
proof (induction arrays heap merged rule: merge_loop.induct)
  case (1 arrays heap merged)
  show ?case
  proof (cases "heap = []")
    case True
    then show ?thesis by (subst merge_loop.simps) simp
  next
    case False
    obtain val arr_idx elem_idx where m: "Min (set heap) = (val, arr_idx, elem_idx)"
      by (cases "Min (set heap)") auto
    have mem: "(val, arr_idx, elem_idx) \<in> set heap"
      using False Min_in[of "set heap"] m by simp
    note split = mset_concat_remove1[OF mem, of "rest_of arrays"]
    show ?thesis
    proof (cases "elem_idx + 1 < length (arrays ! arr_idx)")
      case True
      have d: "arrays ! arr_idx ! Suc elem_idx # drop (Suc (Suc elem_idx)) (arrays ! arr_idx)
               = drop (Suc elem_idx) (arrays ! arr_idx)"
        using True by (simp add: Cons_nth_drop_Suc)
      have "merge_loop arrays heap merged
            = merge_loop arrays ((arrays ! arr_idx ! (elem_idx + 1), arr_idx, elem_idx + 1)
                      # remove1 (val, arr_idx, elem_idx) heap) (merged @ [val])"
        using False True m by (subst merge_loop.simps) simp
      also have "mset \<dots> = mset (merged @ [val])
          + mset (concat (map (rest_of arrays) ((arrays ! arr_idx ! (elem_idx + 1), arr_idx, elem_idx + 1)
                      # remove1 (val, arr_idx, elem_idx) heap)))"
        using "1.IH"(1)[OF False m[symmetric] refl True] by simp
      also have "\<dots> = mset merged + mset (concat (map (rest_of arrays) heap))"
        using d by (simp add: split rest_of_def)
      finally show ?thesis .
    next
      case nope: False
      have d: "drop (Suc elem_idx) (arrays ! arr_idx) = []" using nope by simp
      have "merge_loop arrays heap merged
            = merge_loop arrays (remove1 (val, arr_idx, elem_idx) heap) (merged @ [val])"
        using False nope m by (subst merge_loop.simps) simp
      also have "mset \<dots> = mset (merged @ [val])
          + mset (concat (map (rest_of arrays) (remove1 (val, arr_idx, elem_idx) heap)))"
        using "1.IH"(2)[OF False m[symmetric] refl nope] by simp
      also have "\<dots> = mset merged + mset (concat (map (rest_of arrays) heap))"
        using d by (simp add: split rest_of_def)
      finally show ?thesis .
    qed
  qed
qed

lemma concat_filter_nonempty: "concat (filter (\<lambda>xs. xs \<noteq> []) xss) = concat xss"
  by (induction xss) auto

text \<open>The merge returns the elements of the arrays it is given.\<close>

lemma mset_merge_sorted_arrays: "mset (merge_sorted_arrays arrays) = mset (concat arrays)"
proof -
  have "map (rest_of arrays)
          (map (\<lambda>i. (arrays ! i ! 0, i, 0)) (filter (\<lambda>i. length (arrays ! i) > 0) [0..<length arrays]))
        = map (\<lambda>i. arrays ! i) (filter (\<lambda>i. arrays ! i \<noteq> []) [0..<length arrays])"
    by (auto simp: rest_of_def drop_Suc hd_conv_nth[symmetric])
  also have "\<dots> = filter (\<lambda>xs. xs \<noteq> []) (map (\<lambda>i. arrays ! i) [0..<length arrays])"
    by (simp add: filter_map comp_def)
  also have "\<dots> = filter (\<lambda>xs. xs \<noteq> []) arrays"
    by (simp add: map_nth)
  finally have "concat (map (rest_of arrays)
          (map (\<lambda>i. (arrays ! i ! 0, i, 0)) (filter (\<lambda>i. length (arrays ! i) > 0) [0..<length arrays])))
        = concat arrays"
    by (simp only: concat_filter_nonempty)
  then show ?thesis
    unfolding merge_sorted_arrays_def mset_merge_loop by simp
qed

text \<open>
  Every call of \<^verbatim>\<open>_quicksort\<close> ends in calls of \<^verbatim>\<open>_insertion_sort\<close> on arrays of at most 16
  elements, the first of which raises.
\<close>

lemma quicksort_raises: "quicksort arr = Inl TypingError"
proof (induction arr rule: quicksort.induct)
  case (1 arr)
  show ?case
  proof (cases "length arr \<le> 16")
    case True
    then show ?thesis by (subst quicksort.simps) (simp add: insertion_sort_call_def)
  next
    case False
    obtain left middle right where m: "masks arr (ninther arr) = (left, middle, right)"
      by (cases "masks arr (ninther arr)") auto
    from "1.IH"(1)[OF False m[symmetric] refl] have "quicksort left = Inl TypingError" .
    with False m show ?thesis by (subst quicksort.simps) simp
  qed
qed

text \<open>The paths that return keep the multiset of the array.\<close>

lemma mset_masks:
  assumes "masks arr (Some p) = (left, middle, right)"
  shows "mset left + mset middle + mset right = mset arr"
proof -
  have "mset (filter (\<lambda>x. x < p) arr) + mset (filter (\<lambda>x. x = p) arr) + mset (filter (\<lambda>x. x > p) arr)
        = mset arr"
    by (induction arr) auto
  with assms show ?thesis by (auto simp: masks_def)
qed

lemma heapsort_array_mset: "mset (heapsort_array arr) = mset arr"
  using heapsort_array_length_mset by simp

lemma introsort_depth_mset:
  "introsort_depth arr max_depth = Inr out \<Longrightarrow> mset out = mset arr"
proof (induction max_depth arbitrary: arr out)
  case 0
  then show ?case
    by (auto simp: insertion_sort_call_def heapsort_array_mset split: if_splits)
next
  case (Suc d)
  show ?case
  proof (cases "length arr \<le> 16")
    case True
    with Suc.prems show ?thesis by (simp add: insertion_sort_call_def)
  next
    case False
    then have "9 \<le> length arr" by simp
    from ninther_in_set[OF this] obtain p where p: "ninther arr = Some p" by blast
    obtain left middle right where m: "masks arr (Some p) = (left, middle, right)"
      by (cases "masks arr (Some p)") auto
    from Suc.prems False p m obtain sl sr where
      l: "introsort_depth left d = Inr sl" and r: "introsort_depth right d = Inr sr"
      and o: "out = sl @ middle @ sr"
      by (auto split: sum.splits)
    from Suc.IH[OF l] Suc.IH[OF r] o mset_masks[OF m] show ?thesis by (simp add: add.assoc)
  qed
qed

lemma introsort_mset: "introsort arr = Inr out \<Longrightarrow> mset out = mset arr"
  by (auto simp: introsort_def introsort_depth_mset split: if_splits)

lemma mset_buckets:
  "mset (concat (map (\<lambda>b. filter (\<lambda>x. f x = b) arr) [0..<n]))
   = mset (filter (\<lambda>x. f x < n) arr)"
proof (induction n)
  case 0
  then show ?case by simp
next
  case (Suc n)
  have "mset (filter (\<lambda>x. f x < n) arr) + mset (filter (\<lambda>x. f x = n) arr)
        = mset (filter (\<lambda>x. f x < Suc n) arr)"
    by (induction arr) auto
  with Suc show ?case by simp
qed

lemma mset_concat_map_sort: "mset (concat (map sort xss)) = mset (concat (xss :: elem list list))"
  by (induction xss) simp_all

lemma bucket_sort_mset:
  assumes "bucket_sort sur arr = Inr out"
  shows "mset out = mset arr"
proof (cases "length arr = 0")
  case True
  with assms show ?thesis by (simp add: bucket_sort_def)
next
  case ne: False
  from assms ne obtain n_buckets where
    nb: "fst (optimize_bucket_count (memo_cache sur arr) (random_sample sur arr) arr) = Inr n_buckets"
    by (auto simp: bucket_sort_def split: sum.splits)
  define min_val where "min_val = Min (set arr)"
  define max_val where "max_val = Max (set arr)"
  show ?thesis
  proof (cases "min_val = max_val")
    case True
    with assms ne nb show ?thesis
      by (simp add: bucket_sort_def min_val_def max_val_def)
  next
    case False
    with assms ne nb have pos: "n_buckets \<noteq> 0"
      by (auto simp: bucket_sort_def min_val_def max_val_def Let_def split: if_splits)
    define width where "width = (max_val - min_val) / real n_buckets"
    define bucket_idx where
      "bucket_idx = (\<lambda>x. let idx = nat \<lfloor>(x - min_val) / width\<rfloor>
                          in if idx = n_buckets then idx - 1 else idx)"
    have out: "out = concat (filter (\<lambda>bucket. bucket \<noteq> [])
                    (map sort (map (\<lambda>b. filter (\<lambda>x. bucket_idx x = b) arr) [0..<n_buckets])))"
      using assms ne nb False pos
      by (simp add: bucket_sort_def min_val_def max_val_def Let_def width_def bucket_idx_def
          cong: if_cong)
    have fin: "finite (set arr)" "set arr \<noteq> {}" using ne by simp_all
    have lt: "min_val < max_val"
      using False fin by (simp add: min_val_def max_val_def order_less_le)
    then have w: "0 < width" using pos by (simp add: width_def)
    have inb: "bucket_idx x < n_buckets" if "x \<in> set arr" for x
    proof -
      have "min_val \<le> x" "x \<le> max_val" using that fin by (simp_all add: min_val_def max_val_def)
      then have "x - min_val \<le> real n_buckets * width" "0 \<le> x - min_val"
        using pos by (simp_all add: width_def)
      then have "(x - min_val) / width \<le> real n_buckets"
        using w by (simp add: pos_divide_le_eq)
      then have "\<lfloor>(x - min_val) / width\<rfloor> \<le> int n_buckets"
        by (simp add: floor_le_iff)
      then have "nat \<lfloor>(x - min_val) / width\<rfloor> \<le> n_buckets" by linarith
      then show ?thesis using pos by (auto simp: bucket_idx_def Let_def)
    qed
    have "mset out = mset (concat (map (\<lambda>b. filter (\<lambda>x. bucket_idx x = b) arr) [0..<n_buckets]))"
      unfolding out concat_filter_nonempty by (rule mset_concat_map_sort)
    also have "\<dots> = mset (filter (\<lambda>x. bucket_idx x < n_buckets) arr)" by (rule mset_buckets)
    also have "filter (\<lambda>x. bucket_idx x < n_buckets) arr = arr"
      using inb by (simp add: filter_id_conv)
    finally show ?thesis .
  qed
qed

lemma optimize_block_sort_mset:
  "optimize_block_sort sur block = Inr out \<Longrightarrow> mset out = mset block"
  by (auto simp: optimize_block_sort_def Let_def insertion_sort_call_def quicksort_raises
      split: if_splits dest: bucket_sort_mset introsort_mset)

lemma collect_results_mset:
  "collect_results (map f blocks) = Inr outs \<Longrightarrow>
   (\<And>b out. f b = Inr out \<Longrightarrow> mset out = mset b) \<Longrightarrow>
   mset (concat outs) = mset (concat blocks)"
proof (induction blocks arbitrary: outs)
  case Nil
  then show ?case by simp
next
  case (Cons b blocks)
  from Cons.prems(1) obtain v vs where
    v: "f b = Inr v" and vs: "collect_results (map f blocks) = Inr vs" and o: "outs = v # vs"
    by (auto split: sum.splits)
  from Cons.IH[OF vs Cons.prems(2)] Cons.prems(2)[OF v] o show ?case by simp
qed

lemma mset_merge_pairs: "mset (concat (merge_pairs blocks)) = mset (concat blocks)"
  by (induction blocks rule: merge_pairs.induct) (simp_all add: mset_merge_sorted_arrays)

lemma mset_merge_rounds: "mset (concat (merge_rounds blocks)) = mset (concat blocks)"
proof (induction blocks rule: merge_rounds.induct)
  case (1 sorted_blocks)
  show ?case
  proof (cases "length sorted_blocks > 1")
    case True
    with "1.IH" show ?thesis by (subst merge_rounds.simps) (simp add: mset_merge_pairs)
  next
    case False
    then show ?thesis by (subst merge_rounds.simps) simp
  qed
qed

lemma length_merge_rounds: "length (merge_rounds blocks) \<le> 1"
proof (induction blocks rule: merge_rounds.induct)
  case (1 sorted_blocks)
  show ?case
  proof (cases "length sorted_blocks > 1")
    case True
    with "1.IH" show ?thesis by (subst merge_rounds.simps) simp
  next
    case False
    then show ?thesis by (subst merge_rounds.simps) simp
  qed
qed

lemma advanced_block_sort_mset:
  assumes "advanced_block_sort sur arr = Inr out"
  shows "mset out = mset arr"
proof (cases "length arr < 1000")
  case True
  with assms show ?thesis by (auto simp: advanced_block_sort_def)
next
  case False
  define blocks where "blocks = array_split arr (max 1 (length arr div block_size))"
  from assms False obtain sorted_blocks others where
    c: "collect_results (map (optimize_block_sort sur) blocks) = Inr sorted_blocks"
    and r: "merge_rounds sorted_blocks = out # others"
    by (auto simp: advanced_block_sort_def Let_def blocks_def split: sum.splits list.splits)
  from length_merge_rounds[of sorted_blocks] r have "others = []" by simp
  with r have "mset out = mset (concat (merge_rounds sorted_blocks))" by simp
  also have "\<dots> = mset (concat sorted_blocks)" by (rule mset_merge_rounds)
  also have "\<dots> = mset (concat blocks)"
    by (rule collect_results_mset[OF c]) (rule optimize_block_sort_mset)
  also have "concat blocks = arr"
    unfolding blocks_def by (rule concat_array_split) simp
  finally show ?thesis .
qed

lemma radix_sort_mset: "radix_sort arr = Inr out \<Longrightarrow> out = arr"
  by (auto simp: radix_sort_def Let_def split: if_splits)

lemma concat_chunks:
  "0 < c \<Longrightarrow> concat (map (\<lambda>i. take c (drop (i * c) arr)) [0..<k]) = take (k * c) arr"
proof (induction k)
  case 0
  then show ?case by simp
next
  case (Suc k)
  have "take (k * c) arr @ take c (drop (k * c) arr) = take (k * c + c) arr"
    by (simp add: take_add)
  with Suc show ?case by (simp add: add.commute)
qed

lemma external_sort_mset: "mset (external_sort arr) = mset arr"
proof -
  define k where "k = (length arr * 8 + 4096 - 1) div 4096"
  have c: "map (\<lambda>i. take (4096 div 8) (drop (i * 4096 div 8) arr)) [0..<k]
           = map (\<lambda>i. take 512 (drop (i * 512) arr)) [0..<k]"
    by (simp add: mult.commute)
  have "length arr \<le> k * 512" unfolding k_def by linarith
  then have t: "take (k * 512) arr = arr" by simp
  have cc: "concat (map (\<lambda>i. take 512 (drop (i * 512) arr)) [0..<k]) = arr"
    using concat_chunks[of 512 arr k] t by simp
  show ?thesis
  proof (cases "k = 0")
    case True
    then have "length arr = 0" unfolding k_def by linarith
    with True show ?thesis by (simp add: external_sort_def buffer_size_def Let_def k_def)
  next
    case False
    then have "external_sort arr
          = merge_sorted_arrays (map sort (map (\<lambda>i. take 512 (drop (i * 512) arr)) [0..<k]))"
      by (simp add: external_sort_def buffer_size_def Let_def k_def mult.commute)
    then show ?thesis
      by (simp only: mset_merge_sorted_arrays mset_concat_map_sort cc)
  qed
qed

text \<open>The paths on small arrays.\<close>

lemma array_split_example: "array_split [1, 2, 3, 4, 5] 2 = [[1, 2, 3], [4, 5]]"
proof -
  have "length [1, 2, 3, 4, 5 :: elem] div 2 = 2" "length [1, 2, 3, 4, 5 :: elem] mod 2 = 1"
    by simp_all
  then show ?thesis
    by (simp add: array_split_def Let_def)
qed

lemma radix_sort_examples:
  "radix_sort [3, 1, 2] = Inl TypeError" "radix_sort [1 / 2, 1 / 4] = Inr [1 / 2, 1 / 4]"
  by (simp_all add: radix_sort_def)

lemma merge_example: "merge_sorted_arrays [[1, 3], [2, 4]] = [1, 2, 3, 4]"
proof -
  have i: "[0..<2] = [0, Suc 0]" by (simp add: upt_rec)
  have m1: "Min {(1 :: real, 0 :: nat, 0 :: nat), (2, Suc 0, 0)} = (1, 0, 0)" by simp
  have m2: "Min {(3 :: real, 0 :: nat, Suc 0), (2, Suc 0, 0)} = (2, Suc 0, 0)" by simp
  have m3: "Min {(4 :: real, Suc 0, Suc 0), (3, 0 :: nat, Suc 0)} = (3, 0, Suc 0)" by simp
  show ?thesis
    unfolding merge_sorted_arrays_def
    apply (simp add: i)
    apply (subst merge_loop.simps, simp add: m1)
    apply (subst merge_loop.simps, simp add: m2)
    apply (subst merge_loop.simps, simp add: m3)
    apply (subst merge_loop.simps, simp)
    apply (subst merge_loop.simps, simp)
    done
qed

lemma merge_one: "merge_sorted_arrays [[1, 2, 3]] = [1, 2, 3]"
  unfolding merge_sorted_arrays_def
  apply simp
  apply (subst merge_loop.simps, simp)
  apply (subst merge_loop.simps, simp)
  apply (subst merge_loop.simps, simp)
  apply (subst merge_loop.simps, simp)
  done

lemma external_sort_example: "external_sort [3, 1, 2] = [1, 2, 3]"
  by (simp add: external_sort_def buffer_size_def merge_one)

lemma bucket_sort_example: "bucket_sort small_run [3, 1, 2] = Inr [1, 2, 3]"
  by (simp add: bucket_sort_def optimize_bucket_count_def Let_def)

lemma block_sort_example: "advanced_block_sort small_run [3, 1, 2] = Inr [1, 2, 3]"
  by (simp add: advanced_block_sort_def)

section \<open>The sort engine: properties\<close>

text \<open>
  C5 (as amended). On a non-empty array at least as long as the threshold,
  \<^verbatim>\<open>_compression_sort\<close> returns the array unchanged with ratio 1.0 when the ratio of
  compressed to original size is strictly above 1.0; at any ratio up to and including
  1.0 it returns the sorted array with that ratio.
\<close>

theorem C5_compression_sort_by_ratio:
  assumes "threshold \<le> int (length arr)" and "arr \<noteq> []"
  shows "compression_sort compressed_len threshold arr =
           (if real (compressed_len arr) / real (8 * length arr) > 1 then Inr (arr, 1)
            else Inr (sort arr, real (compressed_len arr) / real (8 * length arr)))"
  using assms by (simp add: compression_sort_def Let_def)

text \<open>
  \<open>[2, 1]\<close> is 16 bytes and its LZ4 frame 37: the ratio is above 1 and the array comes
  back as it is.
\<close>

theorem C5_compression_sort_by_ratio_witness:
  "(2 :: int) \<le> int (length [2, 1 :: elem]) \<and> [2, 1 :: elem] \<noteq> []
   \<and> real (lz4_frame_size [2, 1]) / real (8 * length [2, 1 :: elem]) = 37 / 16
   \<and> compression_sort lz4_frame_size 2 [2, 1] = Inr ([2, 1], 1)"
  using C5_compression_sort_by_ratio[of 2 "[2, 1]" lz4_frame_size]
  by (simp add: lz4_frame_size_def)

text \<open>
  C5 as stated fails at a ratio of exactly 1.0 (the test is \<^verbatim>\<open>compression_ratio > 1.0\<close>):
  \<open>[0, 1, 3, 2, 4, 5, 6]\<close> is 56 bytes and its LZ4 frame is 56 bytes, so the ratio is 1.0;
  with a threshold of 7 the code returns the sorted array \<open>[0, 1, 2, 3, 4, 5, 6]\<close>, not the
  original one.
\<close>

theorem C5_ratio_one_is_sorted_not_returned:
  "real (compressed_size small_run [0, 1, 3, 2, 4, 5, 6])
     / real (8 * length [0, 1, 3, 2, 4, 5, 6 :: elem]) \<ge> 1
   \<and> (7 :: int) \<le> int (length [0, 1, 3, 2, 4, 5, 6 :: elem])
   \<and> compression_sort (compressed_size small_run) 7 [0, 1, 3, 2, 4, 5, 6]
       = Inr ([0, 1, 2, 3, 4, 5, 6], 1)
   \<and> compression_sort (compressed_size small_run) 7 [0, 1, 3, 2, 4, 5, 6]
       \<noteq> Inr ([0, 1, 3, 2, 4, 5, 6], 1)"
  by (simp add: compression_sort_def small_run_def lz4_frame_size_def Let_def)

text \<open>The engine's check is sortedness.\<close>

lemma is_sorted_Cons: "is_sorted (x # y # zs) = (x \<le> y \<and> is_sorted (y # zs))"
  by (simp add: is_sorted_def)

lemma is_sorted_iff_sorted: "is_sorted xs = sorted xs"
proof (induction xs rule: induct_list012)
  case 1
  then show ?case by (simp add: is_sorted_def)
next
  case (2 x)
  then show ?case by (simp add: is_sorted_def)
next
  case (3 x y zs)
  then show ?case by (fastforce simp: is_sorted_Cons)
qed

lemma calculate_stats_name:
  "calculate_stats sur arr name alg err chunks ratio detected = Inr st \<Longrightarrow>
   strategy_used st = name \<and> items_processed st = length arr
   \<and> (err = None \<longrightarrow> algorithm_used st = alg \<and> error_detected st = detected)"
  by (auto simp: calculate_stats_def split: option.splits sum.splits)

lemma with_stats_Inr:
  "with_stats sur a name alg ratio res = Inr (a', res', so) \<Longrightarrow>
   a' = a \<and> res' = res \<and> (\<exists>st. so = Some st \<and> strategy_used st = name \<and> algorithm_used st = alg)"
  by (auto simp: with_stats_def split: sum.splits dest: calculate_stats_name)

lemma stream_sort_and_collect_name:
  "fst (stream_sort_and_collect sur sp xs) = Inr (out, stats) \<Longrightarrow>
   map_option strategy_used stats = Some ''stream''"
  by (auto simp: stream_sort_and_collect_def Let_def split_beta map_sum_def
      split: if_splits sum.splits dest: calculate_stats_name)

lemma failed_result_name:
  "failed_result sur arr e = Inr (out, stats) \<Longrightarrow>
   map_option strategy_used stats = Some ''failed'' \<and> out = arr"
  by (auto simp: failed_result_def map_sum_def split: sum.splits dest: calculate_stats_name)

lemma compression_sort_mset:
  "compression_sort cl t arr = Inr (result, ratio) \<Longrightarrow> mset result = mset arr"
  by (auto simp: compression_sort_def Let_def split: if_splits)

text \<open>What each dispatched path hands to the check.\<close>

lemma parallel_sort_effect:
  assumes "parallel_sort sur arr = Inr (result, st)"
  shows "mset result = mset arr \<and> strategy_used st = ''parallel'' \<and> algorithm_used st = ''quicksort''"
proof -
  define chunk_size where "chunk_size = adaptive_chunk_size sur (length arr)"
  from assms have ne: "chunk_size \<noteq> 0"
    by (auto simp: parallel_sort_def Let_def chunk_size_def split: if_splits)
  with assms have r: "result = merge_sorted_arrays
                        (map sort (array_split arr (max 1 (length arr div chunk_size))))"
    and st: "calculate_stats sur arr ''parallel'' ''quicksort'' None 0 1 False = Inr st"
    by (auto simp: parallel_sort_def Let_def chunk_size_def split: sum.splits)
  have "mset result = mset (concat (array_split arr (max 1 (length arr div chunk_size))))"
    unfolding r by (simp only: mset_merge_sorted_arrays mset_concat_map_sort)
  also have "concat (array_split arr (max 1 (length arr div chunk_size))) = arr"
    by (rule concat_array_split) simp
  finally show ?thesis using calculate_stats_name[OF st] by simp
qed

lemma hybrid_sort_small: "length arr < 1000 \<Longrightarrow> hybrid_sort arr = Inr (sort arr)"
  by (simp add: hybrid_sort_def)

lemma adaptive_sort_effect:
  assumes "adaptive_sort sur arr = Inr (result, st)"
  shows "strategy_used st = ''adaptive''
         \<and> (length arr < 1000 \<or> algorithm_used st \<noteq> ''mergesort'' \<longrightarrow> mset result = mset arr)"
proof -
  define nearly where
    "nearly = (10 * length (filter (\<lambda>(a, b). b - a < 0)
                 (zip (adaptive_sample sur arr) (tl (adaptive_sample sur arr))))
               < length (adaptive_sample sur arr))"
  define low where
    "low = (np_std (adaptive_sample sur arr)
            < (Max (set (adaptive_sample sur arr)) - Min (set (adaptive_sample sur arr))) / 100)"
  consider (a) "nearly" | (b) "\<not> nearly" "low" | (c) "\<not> nearly" "\<not> low" by blast
  then show ?thesis
  proof cases
    case a
    with assms have "calculate_stats sur arr ''adaptive'' ''timsort'' None 0 1 False = Inr st"
      and "result = sort arr"
      by (auto simp: adaptive_sort_def Let_def nearly_def split: sum.splits)
    then show ?thesis using calculate_stats_name by fastforce
  next
    case b
    with assms obtain r0 st0 where p: "parallel_sort sur arr = Inr (r0, st0)"
      and "calculate_stats sur arr ''adaptive'' ''quicksort'' None 0 1 False = Inr st"
      and "result = r0"
      by (auto simp: adaptive_sort_def Let_def nearly_def low_def split: sum.splits if_splits)
    then show ?thesis using calculate_stats_name parallel_sort_effect[OF p] by fastforce
  next
    case c
    with assms obtain r0 where h: "hybrid_sort arr = Inr r0"
      and s: "calculate_stats sur arr ''adaptive'' ''mergesort'' None 0 1 False = Inr st"
      and r: "result = r0"
      by (auto simp: adaptive_sort_def Let_def nearly_def low_def split: sum.splits if_splits)
    from calculate_stats_name[OF s] have n: "strategy_used st = ''adaptive''"
      "algorithm_used st = ''mergesort''" by simp_all
    have "length arr < 1000 \<longrightarrow> mset result = mset arr"
      using h r by (auto simp: hybrid_sort_small)
    with n show ?thesis by simp
  qed
qed

lemma dispatch_effect:
  assumes "dispatch sur eng s arr = Inr (arr', result, so)"
  shows "arr' = arr
         \<and> map_option strategy_used so \<notin> {Some ''fallback'', Some ''failed'', Some ''stream''}
         \<and> (length arr < 1000
              \<or> map_option (\<lambda>st. (strategy_used st, algorithm_used st)) so
                  \<notin> {Some (''hybrid'', ''introsort''), Some (''adaptive'', ''mergesort'')}
             \<longrightarrow> mset result = mset arr)"
proof (cases s)
  case MEMORY_EFFICIENT
  with assms show ?thesis
    by (auto simp: dispatch_def memory_efficient_arrays_cases split: if_splits dest!: with_stats_Inr)
next
  case HYBRID
  with assms obtain r0 where h: "hybrid_sort arr = Inr r0"
    and w: "with_stats sur arr ''hybrid'' ''introsort'' 1 r0 = Inr (arr', result, so)"
    by (auto simp: dispatch_def split: sum.splits)
  from with_stats_Inr[OF w] obtain st where
    e: "arr' = arr" "result = r0" "so = Some st" "strategy_used st = ''hybrid''"
       "algorithm_used st = ''introsort''"
    by blast
  have "length arr < 1000 \<longrightarrow> mset result = mset arr"
    using h e(2) by (auto simp: hybrid_sort_small)
  with e show ?thesis by simp
next
  case ADAPTIVE
  with assms obtain st where a: "adaptive_sort sur arr = Inr (result, st)"
    and e: "arr' = arr" "so = Some st"
    by (auto simp: dispatch_def split: sum.splits)
  from adaptive_sort_effect[OF a] e show ?thesis by auto
next
  case BLOCK_SORT
  with assms show ?thesis
    by (auto simp: dispatch_def split: sum.splits dest: advanced_block_sort_mset)
next
  case BUCKET_SORT
  with assms show ?thesis
    by (auto simp: dispatch_def split: sum.splits dest: bucket_sort_mset)
next
  case RADIX_SORT
  with assms show ?thesis
    by (auto simp: dispatch_def split: sum.splits dest!: with_stats_Inr radix_sort_mset)
next
  case COMPRESSION_SORT
  with assms show ?thesis
    by (auto simp: dispatch_def split: sum.splits dest!: with_stats_Inr compression_sort_mset)
next
  case EXTERNAL_SORT
  with assms show ?thesis
    by (auto simp: dispatch_def external_sort_mset dest!: with_stats_Inr)
next
  case AUTO
  with assms obtain st where p: "parallel_sort sur arr = Inr (result, st)"
    and e: "arr' = arr" "so = Some st"
    by (auto simp: dispatch_def split: sum.splits)
  from parallel_sort_effect[OF p] e show ?thesis by auto
next
  case PARALLEL
  with assms obtain st where p: "parallel_sort sur arr = Inr (result, st)"
    and e: "arr' = arr" "so = Some st"
    by (auto simp: dispatch_def split: sum.splits)
  from parallel_sort_effect[OF p] e show ?thesis by auto
next
  case STREAM
  with assms obtain st where p: "parallel_sort sur arr = Inr (result, st)"
    and e: "arr' = arr" "so = Some st"
    by (auto simp: dispatch_def split: sum.splits)
  from parallel_sort_effect[OF p] e show ?thesis by auto
qed

lemma verify_effect:
  assumes "verify sur (arr', result, so) = Inr (out, stats)"
  shows "sorted out
         \<and> ((out = result \<and> stats = so \<and> is_sorted result)
            \<or> (out = sort arr' \<and> \<not> is_sorted result
                \<and> (\<exists>st. stats = Some st \<and> strategy_used st = ''fallback''
                      \<and> algorithm_used st = ''mergesort'' \<and> error_detected st)))"
  using assms
  by (auto simp: verify_def is_sorted_iff_sorted split: if_splits sum.splits
      dest: calculate_stats_name)

text \<open>
  C1 (as amended). Whenever \<^verbatim>\<open>sort\<close> returns a result that is neither the handler's
  (stats for \<^verbatim>\<open>"failed"\<close>) nor the stream path's (stats for \<^verbatim>\<open>"stream"\<close>), the returned
  array is non-decreasing: it passed the check or is the fallback's stable sort. It is
  a permutation of the input (same multiset, same length) as well, whichever path
  produced it; the one case left open is a result of \<^verbatim>\<open>_hybrid_sort\<close> on 1000 elements or
  more, which the stats report as \<^verbatim>\<open>"hybrid"\<close> with \<^verbatim>\<open>"introsort"\<close> or as \<^verbatim>\<open>"adaptive"\<close> with
  \<^verbatim>\<open>"mergesort"\<close>.
\<close>

theorem C1_sort_output_outside_stream_and_failure:
  assumes "fst (sort_entry sur eng arr) = Inr (out, stats)"
      and "map_option strategy_used stats \<notin> {Some ''failed'', Some ''stream''}"
  shows "sorted out
         \<and> (length arr < 1000
              \<or> map_option (\<lambda>st. (strategy_used st, algorithm_used st)) stats
                  \<notin> {Some (''hybrid'', ''introsort''), Some (''adaptive'', ''mergesort'')}
             \<longrightarrow> mset out = mset arr \<and> length out = length arr)"
proof -
  have not_stream: "fst (stream_sort_and_collect sur sp xs) \<noteq> Inr (out, stats)" for sp xs
    using stream_sort_and_collect_name[of sur sp xs out stats] assms(2) by auto
  have not_failed: "failed_result sur xs e \<noteq> Inr (out, stats)" for xs e
    using failed_result_name[of sur xs e out stats] assms(2) by auto
  from assms(1) not_stream not_failed
  obtain s arr' result so where
    d: "dispatch sur eng s arr = Inr (arr', result, so)"
    and v: "verify sur (arr', result, so) = Inr (out, stats)"
    by (auto simp: sort_entry_def split_beta Let_def split: if_splits sum.splits)
  note de = dispatch_effect[OF d] and ve = verify_effect[OF v]
  have perm: "mset out = mset arr"
    if "length arr < 1000
        \<or> map_option (\<lambda>st. (strategy_used st, algorithm_used st)) stats
            \<notin> {Some (''hybrid'', ''introsort''), Some (''adaptive'', ''mergesort'')}"
  proof -
    from ve consider "out = result" "stats = so" | "out = sort arr'" by blast
    then show ?thesis
    proof cases
      case 1
      with de that show ?thesis by blast
    next
      case 2
      with de show ?thesis by simp
    qed
  qed
  have "mset out = mset arr \<Longrightarrow> length out = length arr"
    by (metis size_mset)
  with ve perm show ?thesis by blast
qed

lemma bucket_distribution_3412: "get_bucket_distribution small_run [3, 4, 1, 2] = Inr [3]"
  by (simp add: get_bucket_distribution_def optimize_bucket_count_def linspace_def Let_def upt_rec)

lemma bucket_distribution_312: "get_bucket_distribution small_run [3, 1, 2] = Inr [2]"
  by (simp add: get_bucket_distribution_def optimize_bucket_count_def linspace_def Let_def upt_rec)

lemma stats_312:
  "calculate_stats small_run [3, 1, 2] name alg None 0 1 False
   = Inr \<lparr> items_processed = 3, bucket_distribution = [2], strategy_used = name,
           algorithm_used = alg, stream_chunks = 0, compression_ratio = 1,
           error_detected = False, fallback_strategy = ''None'' \<rparr>"
  by (simp add: calculate_stats_def bucket_distribution_312)

lemma parallel_sort_example:
  "parallel_sort small_run [3, 1, 2]
   = Inr ([1, 2, 3],
          \<lparr> items_processed = 3, bucket_distribution = [2], strategy_used = ''parallel'',
            algorithm_used = ''quicksort'', stream_chunks = 0, compression_ratio = 1,
            error_detected = False, fallback_strategy = ''None'' \<rparr>)"
proof -
  have n: "adaptive_chunk_size small_run (length [3, 1, 2 :: elem]) = 3"
    by (simp add: small_run_def)
  have a: "array_split [3, 1, 2] (max 1 (length [3, 1, 2 :: elem] div 3)) = [[3, 1, 2]]"
    by (simp add: array_split_def)
  show ?thesis
    unfolding parallel_sort_def n Let_def a
    by (simp add: merge_one stats_312)
qed

lemma adaptive_sort_example:
  "adaptive_sort small_run [3, 1, 2]
   = Inr ([1, 2, 3],
          \<lparr> items_processed = 3, bucket_distribution = [2], strategy_used = ''adaptive'',
            algorithm_used = ''mergesort'', stream_chunks = 0, compression_ratio = 1,
            error_detected = False, fallback_strategy = ''None'' \<rparr>)"
proof -
  have s: "adaptive_sample small_run [3, 1, 2] = [3, 1, 2]" by (simp add: small_run_def)
  have m: "np_mean [3, 1, 2] = 2" by (simp add: np_mean_def)
  have "(2 / 3 :: real) \<ge> (1 / 50)\<^sup>2" by (simp add: power2_eq_square)
  then have "sqrt (2 / 3) \<ge> 1 / 50" by (rule real_le_rsqrt)
  then have d: "\<not> np_std [3, 1, 2] < (3 - 1) / 100"
    by (simp add: np_std_def m)
  have h: "hybrid_sort [3, 1, 2] = Inr [1, 2, 3]" by (simp add: hybrid_sort_def)
  show ?thesis
    unfolding adaptive_sort_def s Let_def
    using d by (simp add: h stats_312)
qed

lemma process_stream_3412:
  "process_stream (\<lambda>history. 2)
     \<lparr> sp_chunk_size = 2, buffer = [], buffer_maxlen = 2, chunks_processed = 0,
       last_chunk_size = 2, chunk_history = [] \<rparr> [3, 4, 1, 2]
   = ([[3, 4], [1, 2]],
      \<lparr> sp_chunk_size = 1000, buffer = [], buffer_maxlen = 2, chunks_processed = 2,
        last_chunk_size = 2, chunk_history = [2, 2] \<rparr>)"
  by (simp add: process_stream_def update_chunk_size_def deque_append_def Let_def)

lemma stream_collect_3412:
  "fst (stream_sort_and_collect small_run
     \<lparr> sp_chunk_size = 2, buffer = [], buffer_maxlen = 2, chunks_processed = 0,
       last_chunk_size = 2, chunk_history = [] \<rparr> [3, 4, 1, 2])
   = Inr ([3, 4, 1, 2],
          Some \<lparr> items_processed = 4, bucket_distribution = [3], strategy_used = ''stream'',
                 algorithm_used = ''timsort'', stream_chunks = 2, compression_ratio = 1,
                 error_detected = False, fallback_strategy = ''None'' \<rparr>)"
proof -
  have n: "next_chunk_size small_run = (\<lambda>history. 2)" by (simp add: small_run_def)
  show ?thesis
    unfolding stream_sort_and_collect_def n process_stream_3412
    by (simp add: calculate_stats_def bucket_distribution_3412)
qed

lemma failed_run_312:
  "fst (sort_entry small_run
        \<lparr> strategy = MEMORY_EFFICIENT, stream_mode = False, use_ml_prediction = False,
          compression_threshold = 10000, external_sort_threshold = 100000,
          stream_processor = \<lparr> sp_chunk_size = 1000, buffer = [], buffer_maxlen = 1000,
            chunks_processed = 0, last_chunk_size = 1000, chunk_history = [] \<rparr> \<rparr> [3, 1, 2])
   = Inr ([3, 1, 2],
          Some \<lparr> items_processed = 3, bucket_distribution = [], strategy_used = ''failed'',
                 algorithm_used = ''none'', stream_chunks = 0, compression_ratio = 1,
                 error_detected = True, fallback_strategy = ''None'' \<rparr>)"
proof -
  have n: "adaptive_chunk_size small_run (length [3, 1, 2 :: elem]) = 3"
    by (simp add: small_run_def)
  have d: "dispatch small_run eng MEMORY_EFFICIENT [3, 1, 2] = Inl TypeError" for eng
    unfolding dispatch_def n by (simp add: memory_efficient_arrays_cases)
  show ?thesis
    by (simp add: sort_entry_def select_strategy_def d failed_result_def calculate_stats_def)
qed

text \<open>
  C1 as stated fails in stream mode and in the exception handler. An engine built
  with \<^verbatim>\<open>stream_mode=True\<close> and \<^verbatim>\<open>chunk_size=2\<close> sorts \<open>[3, 4, 1, 2]\<close> window by window and
  returns the windows concatenated: \<open>[3, 4, 1, 2]\<close>, which is not non-decreasing, with
  stats that report no error. An engine built with \<^verbatim>\<open>strategy=MEMORY_EFFICIENT\<close> and
  \<^verbatim>\<open>use_ml_prediction=False\<close> raises \<^verbatim>\<open>TypeError\<close> inside the memory-efficient path on
  \<open>[3, 1, 2]\<close>; the handler catches it and \<^verbatim>\<open>sort\<close> returns \<open>[3, 1, 2]\<close> as it came, with
  stats for \<^verbatim>\<open>"failed"\<close>.
\<close>

theorem C1_stream_and_handler_outputs_not_sorted:
  "EnhancedHyperionSort_init STREAM (Some 2) True False 10000 100000
     = Inr \<lparr> strategy = STREAM, stream_mode = True, use_ml_prediction = False,
        compression_threshold = 10000, external_sort_threshold = 100000,
        stream_processor = \<lparr> sp_chunk_size = 2, buffer = [], buffer_maxlen = 2,
          chunks_processed = 0, last_chunk_size = 2, chunk_history = [] \<rparr> \<rparr>
   \<and> fst (sort_entry small_run
        \<lparr> strategy = STREAM, stream_mode = True, use_ml_prediction = False,
        compression_threshold = 10000, external_sort_threshold = 100000,
        stream_processor = \<lparr> sp_chunk_size = 2, buffer = [], buffer_maxlen = 2,
          chunks_processed = 0, last_chunk_size = 2, chunk_history = [] \<rparr> \<rparr> [3, 4, 1, 2])
     = Inr ([3, 4, 1, 2],
          Some \<lparr> items_processed = 4, bucket_distribution = [3], strategy_used = ''stream'',
                 algorithm_used = ''timsort'', stream_chunks = 2, compression_ratio = 1,
                 error_detected = False, fallback_strategy = ''None'' \<rparr>)
   \<and> \<not> sorted [3, 4, 1, 2 :: elem]
   \<and> EnhancedHyperionSort_init MEMORY_EFFICIENT None False False 10000 100000
     = Inr \<lparr> strategy = MEMORY_EFFICIENT, stream_mode = False, use_ml_prediction = False,
          compression_threshold = 10000, external_sort_threshold = 100000,
          stream_processor = \<lparr> sp_chunk_size = 1000, buffer = [], buffer_maxlen = 1000,
            chunks_processed = 0, last_chunk_size = 1000, chunk_history = [] \<rparr> \<rparr>
   \<and> fst (sort_entry small_run
        \<lparr> strategy = MEMORY_EFFICIENT, stream_mode = False, use_ml_prediction = False,
          compression_threshold = 10000, external_sort_threshold = 100000,
          stream_processor = \<lparr> sp_chunk_size = 1000, buffer = [], buffer_maxlen = 1000,
            chunks_processed = 0, last_chunk_size = 1000, chunk_history = [] \<rparr> \<rparr> [3, 1, 2])
     = Inr ([3, 1, 2],
          Some \<lparr> items_processed = 3, bucket_distribution = [], strategy_used = ''failed'',
                 algorithm_used = ''none'', stream_chunks = 0, compression_ratio = 1,
                 error_detected = True, fallback_strategy = ''None'' \<rparr>)
   \<and> \<not> sorted [3, 1, 2 :: elem]"
  using stream_collect_3412 failed_run_312
  by (simp add: EnhancedHyperionSort_init_def StreamProcessor_init_def sort_entry_def split_beta)

text \<open>
  C2 as stated fails for the \<^verbatim>\<open>STREAM\<close> strategy, which \<^verbatim>\<open>sort\<close> returns from without
  the check. An engine built with \<^verbatim>\<open>strategy=STREAM\<close>, \<^verbatim>\<open>use_ml_prediction=False\<close> and
  \<^verbatim>\<open>chunk_size=2\<close> dispatches \<open>[3, 4, 1, 2]\<close> to the stream path; the result
  \<open>[3, 4, 1, 2]\<close> is not non-decreasing, and it is returned as it is, with
  \<^verbatim>\<open>error_detected=False\<close>, instead of the stable sort \<open>[1, 2, 3, 4]\<close>.
\<close>

theorem C2_stream_strategy_skips_verification:
  "EnhancedHyperionSort_init STREAM (Some 2) False False 10000 100000
     = Inr \<lparr> strategy = STREAM, stream_mode = False, use_ml_prediction = False,
        compression_threshold = 10000, external_sort_threshold = 100000,
        stream_processor = \<lparr> sp_chunk_size = 2, buffer = [], buffer_maxlen = 2,
          chunks_processed = 0, last_chunk_size = 2, chunk_history = [] \<rparr> \<rparr>
   \<and> select_strategy small_run
        \<lparr> strategy = STREAM, stream_mode = False, use_ml_prediction = False,
        compression_threshold = 10000, external_sort_threshold = 100000,
        stream_processor = \<lparr> sp_chunk_size = 2, buffer = [], buffer_maxlen = 2,
          chunks_processed = 0, last_chunk_size = 2, chunk_history = [] \<rparr> \<rparr> [3, 4, 1, 2] = Inr STREAM
   \<and> fst (sort_entry small_run
        \<lparr> strategy = STREAM, stream_mode = False, use_ml_prediction = False,
        compression_threshold = 10000, external_sort_threshold = 100000,
        stream_processor = \<lparr> sp_chunk_size = 2, buffer = [], buffer_maxlen = 2,
          chunks_processed = 0, last_chunk_size = 2, chunk_history = [] \<rparr> \<rparr> [3, 4, 1, 2])
     = Inr ([3, 4, 1, 2],
          Some \<lparr> items_processed = 4, bucket_distribution = [3], strategy_used = ''stream'',
                 algorithm_used = ''timsort'', stream_chunks = 2, compression_ratio = 1,
                 error_detected = False, fallback_strategy = ''None'' \<rparr>)
   \<and> \<not> is_sorted [3, 4, 1, 2]
   \<and> sort [3, 4, 1, 2 :: elem] = [1, 2, 3, 4]"
  using stream_collect_3412
  by (simp add: EnhancedHyperionSort_init_def StreamProcessor_init_def sort_entry_def split_beta
      select_strategy_def is_sorted_def)

text \<open>
  C2 (as amended). Outside stream mode, for every selected strategy but \<^verbatim>\<open>STREAM\<close>:
  when the dispatched path returns a result that is not non-decreasing, and the
  statistics of the fallback can be computed, \<^verbatim>\<open>sort\<close> returns the stable sort of the
  input with stats for \<^verbatim>\<open>"fallback"\<close>, \<^verbatim>\<open>algorithm_used = "mergesort"\<close> (the fallback
  algorithm) and \<^verbatim>\<open>error_detected = True\<close>.
\<close>

theorem C2_unsorted_result_replaced_by_stable_sort:
  assumes "\<not> stream_mode eng"
      and "select_strategy sur eng arr = Inr s" and "s \<noteq> STREAM"
      and "dispatch sur eng s arr = Inr (arr', result, so)"
      and "\<not> is_sorted result"
      and "get_bucket_distribution sur arr' = Inr distribution"
  shows "fst (sort_entry sur eng arr)
         = Inr (sort arr,
                Some \<lparr> items_processed = length arr, bucket_distribution = distribution,
                       strategy_used = ''fallback'', algorithm_used = ''mergesort'',
                       stream_chunks = 0, compression_ratio = 1,
                       error_detected = True, fallback_strategy = ''None'' \<rparr>)"
proof -
  from dispatch_effect[OF assms(4)] have m: "mset arr' = mset arr" by simp
  then have "size (mset arr') = size (mset arr)" by simp
  then have len: "length arr' = length arr" by simp
  have srt: "sort arr' = sort arr"
    by (rule properties_for_sort) (simp_all add: m)
  have st: "calculate_stats sur arr' ''fallback'' ''mergesort'' None 0 1 True
            = Inr \<lparr> items_processed = length arr, bucket_distribution = distribution,
                       strategy_used = ''fallback'', algorithm_used = ''mergesort'',
                       stream_chunks = 0, compression_ratio = 1,
                       error_detected = True, fallback_strategy = ''None'' \<rparr>"
    by (simp add: calculate_stats_def assms(6) len)
  have v: "verify sur (arr', result, so)
           = Inr (sort arr,
                Some \<lparr> items_processed = length arr, bucket_distribution = distribution,
                       strategy_used = ''fallback'', algorithm_used = ''mergesort'',
                       stream_chunks = 0, compression_ratio = 1,
                       error_detected = True, fallback_strategy = ''None'' \<rparr>)"
    by (simp add: verify_def assms(5) st srt)
  show ?thesis
    by (simp add: sort_entry_def assms(1) assms(2) assms(3) assms(4) v)
qed

text \<open>
  Forced \<^verbatim>\<open>COMPRESSION_SORT\<close> on \<open>[3, 1, 2]\<close>, below the compression threshold: the path
  returns the array as it is, the check fails and the fallback sorts it.
\<close>

theorem C2_unsorted_result_replaced_by_stable_sort_witness:
  "\<not> stream_mode \<lparr> strategy = COMPRESSION_SORT, stream_mode = False, use_ml_prediction = False,
        compression_threshold = 10000, external_sort_threshold = 100000,
        stream_processor = \<lparr> sp_chunk_size = 1000, buffer = [], buffer_maxlen = 1000,
          chunks_processed = 0, last_chunk_size = 1000, chunk_history = [] \<rparr> \<rparr>
   \<and> EnhancedHyperionSort_init COMPRESSION_SORT None False False 10000 100000
     = Inr \<lparr> strategy = COMPRESSION_SORT, stream_mode = False, use_ml_prediction = False,
        compression_threshold = 10000, external_sort_threshold = 100000,
        stream_processor = \<lparr> sp_chunk_size = 1000, buffer = [], buffer_maxlen = 1000,
          chunks_processed = 0, last_chunk_size = 1000, chunk_history = [] \<rparr> \<rparr>
   \<and> \<not> is_sorted [3, 1, 2]
   \<and> fst (sort_entry small_run
        \<lparr> strategy = COMPRESSION_SORT, stream_mode = False, use_ml_prediction = False,
          compression_threshold = 10000, external_sort_threshold = 100000,
          stream_processor = \<lparr> sp_chunk_size = 1000, buffer = [], buffer_maxlen = 1000,
            chunks_processed = 0, last_chunk_size = 1000, chunk_history = [] \<rparr> \<rparr> [3, 1, 2])
     = Inr ([1, 2, 3],
            Some \<lparr> items_processed = 3, bucket_distribution = [2],
                   strategy_used = ''fallback'', algorithm_used = ''mergesort'',
                   stream_chunks = 0, compression_ratio = 1,
                   error_detected = True, fallback_strategy = ''None'' \<rparr>)"
proof -
  let ?eng = "\<lparr> strategy = COMPRESSION_SORT, stream_mode = False, use_ml_prediction = False,
        compression_threshold = 10000, external_sort_threshold = 100000,
        stream_processor = \<lparr> sp_chunk_size = 1000, buffer = [], buffer_maxlen = 1000,
          chunks_processed = 0, last_chunk_size = 1000, chunk_history = [] \<rparr> \<rparr>"
  have a: "\<not> stream_mode ?eng" by simp
  have b: "select_strategy small_run ?eng [3, 1, 2] = Inr COMPRESSION_SORT"
    by (simp add: select_strategy_def)
  have c: "COMPRESSION_SORT \<noteq> STREAM" by simp
  have d: "dispatch small_run ?eng COMPRESSION_SORT [3, 1, 2]
           = Inr ([3, 1, 2], [3, 1, 2],
                  Some \<lparr> items_processed = 3, bucket_distribution = [2],
                         strategy_used = ''compression'', algorithm_used = ''mergesort'',
                         stream_chunks = 0, compression_ratio = 1,
                         error_detected = False, fallback_strategy = ''None'' \<rparr>)"
    by (simp add: dispatch_def compression_sort_def with_stats_def calculate_stats_def
        bucket_distribution_312)
  have e: "\<not> is_sorted [3, 1, 2]" by (simp add: is_sorted_def)
  have i: "EnhancedHyperionSort_init COMPRESSION_SORT None False False 10000 100000 = Inr ?eng"
    by (simp add: EnhancedHyperionSort_init_def StreamProcessor_init_def)
  from C2_unsorted_result_replaced_by_stable_sort[OF a b c d e bucket_distribution_312] e i
  show ?thesis by simp
qed

text \<open>
  Forced \<^verbatim>\<open>HYBRID\<close> on \<open>[3, 1, 2]\<close>: below 1000 elements the path is \<^verbatim>\<open>np.sort\<close>, the
  check passes, and the result is returned with the stats of the hybrid path.
\<close>

theorem C1_sort_output_outside_stream_and_failure_witness:
  "fst (sort_entry small_run
        \<lparr> strategy = HYBRID, stream_mode = False, use_ml_prediction = False,
          compression_threshold = 10000, external_sort_threshold = 100000,
          stream_processor = \<lparr> sp_chunk_size = 1000, buffer = [], buffer_maxlen = 1000,
            chunks_processed = 0, last_chunk_size = 1000, chunk_history = [] \<rparr> \<rparr> [3, 1, 2])
     = Inr ([1, 2, 3],
            Some \<lparr> items_processed = 3, bucket_distribution = [2],
                   strategy_used = ''hybrid'', algorithm_used = ''introsort'',
                   stream_chunks = 0, compression_ratio = 1,
                   error_detected = False, fallback_strategy = ''None'' \<rparr>)
   \<and> length [3, 1, 2 :: elem] < 1000
   \<and> sorted [1, 2, 3 :: elem] \<and> mset [1, 2, 3 :: elem] = mset [3, 1, 2]
   \<and> length [1, 2, 3 :: elem] = length [3, 1, 2 :: elem]"
proof -
  let ?eng = "\<lparr> strategy = HYBRID, stream_mode = False, use_ml_prediction = False,
          compression_threshold = 10000, external_sort_threshold = 100000,
          stream_processor = \<lparr> sp_chunk_size = 1000, buffer = [], buffer_maxlen = 1000,
            chunks_processed = 0, last_chunk_size = 1000, chunk_history = [] \<rparr> \<rparr>"
  let ?st = "\<lparr> items_processed = 3, bucket_distribution = [2],
                   strategy_used = ''hybrid'', algorithm_used = ''introsort'',
                   stream_chunks = 0, compression_ratio = 1,
                   error_detected = False, fallback_strategy = ''None'' \<rparr>"
  have h: "hybrid_sort [3, 1, 2] = Inr [1, 2, 3]" by (simp add: hybrid_sort_def)
  have d: "dispatch small_run ?eng HYBRID [3, 1, 2] = Inr ([3, 1, 2], [1, 2, 3], Some ?st)"
    unfolding dispatch_def h
    by (simp add: with_stats_def calculate_stats_def bucket_distribution_312)
  have v: "verify small_run ([3, 1, 2], [1, 2, 3], Some ?st) = Inr ([1, 2, 3], Some ?st)"
    by (simp add: verify_def is_sorted_def)
  have run: "fst (sort_entry small_run ?eng [3, 1, 2]) = Inr ([1, 2, 3], Some ?st)"
    by (simp add: sort_entry_def select_strategy_def d v)
  have ok: "map_option strategy_used (Some ?st) \<notin> {Some ''failed'', Some ''stream''}" by simp
  from C1_sort_output_outside_stream_and_failure[OF run ok] run show ?thesis by simp
qed

section \<open>Further properties\<close>

text \<open>
  \<^verbatim>\<open>_heapsort\<close> sorts in place: the object it was given is the object it returns, and
  it holds the sorted input.
\<close>

theorem heapsort_sorts_in_place:
  "snd (heapsort h arr) = arr
   \<and> cells (fst (heapsort h arr)) arr = sort (cells h arr)
   \<and> sorted (cells (fst (heapsort h arr)) arr)
   \<and> mset (cells (fst (heapsort h arr)) arr) = mset (cells h arr)"
  by (simp add: heapsort_def heapsort_array_sorts)

text \<open>
  From 1000 elements on, \<^verbatim>\<open>_hybrid_sort\<close> never returns a permutation of its input: it
  concatenates the sorted partitions of \<^verbatim>\<open>_advanced_partition\<close>, none of which holds the
  maximum (on an array of equal values there is no partition at all, and
  \<^verbatim>\<open>np.concatenate\<close> raises).
\<close>

theorem hybrid_sort_loses_maximum:
  assumes "1000 \<le> length arr" and "hybrid_sort arr = Inr out"
  shows "mset out \<noteq> mset arr \<and> Max (set arr) \<notin> set out"
proof -
  from assms have out: "out = concat (map sort (advanced_partition arr))"
    by (auto simp: hybrid_sort_def Let_def split: if_splits)
  then have m: "mset out = mset (concat (advanced_partition arr))"
    by (simp add: mset_concat_map_sort)
  have "Max (set arr) \<notin> set (concat (advanced_partition arr))"
    using advanced_partition_below_Max[OF assms(1), of "Max (set arr)"] by auto
  moreover have "set out = set (concat (advanced_partition arr))"
    using m by (metis set_mset_mset)
  ultimately show ?thesis
    using advanced_partition_not_permutation[OF assms(1)] m by simp
qed

theorem hybrid_sort_loses_maximum_witness:
  "1000 \<le> length (replicate 999 (0::elem) @ [1])
   \<and> hybrid_sort (replicate 999 0 @ [1]) = Inr (replicate 999 0)
   \<and> mset (replicate 999 (0::elem)) \<noteq> mset (replicate 999 0 @ [1])"
proof -
  have l: "1000 \<le> length (replicate 999 (0::elem) @ [1])" by simp
  have p: "advanced_partition (replicate 999 0 @ [1]) = [replicate 999 0]"
    using advanced_partition_999_zeros_one by simp
  have s: "sort (replicate 999 (0::elem)) = replicate 999 0"
    by (rule sorted_sort_id) simp
  have h: "hybrid_sort (replicate 999 0 @ [1]) = Inr (replicate 999 0)"
    by (simp add: hybrid_sort_def p s)
  from hybrid_sort_loses_maximum[OF l h] l h show ?thesis by simp
qed

lemma dispatch_hybrid_stats:
  assumes "dispatch sur eng s arr = Inr (arr', result, Some st)"
      and "strategy_used st = ''hybrid''"
  shows "hybrid_sort arr = Inr result"
proof (cases s)
  case HYBRID
  with assms show ?thesis
    by (auto simp: dispatch_def split: sum.splits dest!: with_stats_Inr)
next
  case ADAPTIVE
  with assms show ?thesis
    by (auto simp: dispatch_def split: sum.splits dest!: adaptive_sort_effect)
next
  case AUTO
  with assms show ?thesis
    by (auto simp: dispatch_def split: sum.splits dest!: parallel_sort_effect)
next
  case PARALLEL
  with assms show ?thesis
    by (auto simp: dispatch_def split: sum.splits dest!: parallel_sort_effect)
next
  case STREAM
  with assms show ?thesis
    by (auto simp: dispatch_def split: sum.splits dest!: parallel_sort_effect)
qed (use assms in \<open>auto simp: dispatch_def split: sum.splits dest!: with_stats_Inr\<close>)

text \<open>
  The loss goes through \<^verbatim>\<open>sort\<close>: the partitions come out in increasing order, the check
  passes, and a result that the stats report as \<^verbatim>\<open>"hybrid"\<close> on 1000 elements or more is
  never a permutation of the input.
\<close>

lemma sort_entry_hybrid_not_permutation:
  assumes "fst (sort_entry sur eng arr) = Inr (out, Some st)"
      and "strategy_used st = ''hybrid''" and "1000 \<le> length arr"
  shows "mset out \<noteq> mset arr \<and> Max (set arr) \<notin> set out"
proof -
  have not_stream: "fst (stream_sort_and_collect sur sp xs) \<noteq> Inr (out, Some st)" for sp xs
    using stream_sort_and_collect_name[of sur sp xs out "Some st"] assms(2) by auto
  have not_failed: "failed_result sur xs e \<noteq> Inr (out, Some st)" for xs e
    using failed_result_name[of sur xs e out "Some st"] assms(2) by auto
  from assms(1) not_stream not_failed
  obtain s arr' result so where
    d: "dispatch sur eng s arr = Inr (arr', result, so)"
    and v: "verify sur (arr', result, so) = Inr (out, Some st)"
    by (auto simp: sort_entry_def split_beta Let_def split: if_splits sum.splits)
  from verify_effect[OF v] assms(2) have "out = result" "so = Some st" by auto
  with d have h: "hybrid_sort arr = Inr out"
    using dispatch_hybrid_stats[OF _ assms(2)] by blast
  with assms(3) have "out = concat (map sort (advanced_partition arr))"
    by (auto simp: hybrid_sort_def Let_def split: if_splits)
  then have m: "mset out = mset (concat (advanced_partition arr))"
    by (simp add: mset_concat_map_sort)
  have "Max (set arr) \<notin> set (concat (advanced_partition arr))"
    using advanced_partition_below_Max[OF assms(3), of "Max (set arr)"] by auto
  moreover have "set out = set (concat (advanced_partition arr))"
    using m by (metis set_mset_mset)
  ultimately show ?thesis
    using advanced_partition_not_permutation[OF assms(3)] m by simp
qed

text \<open>
  Outside stream mode \<^verbatim>\<open>sort\<close> never raises: whatever the selection, the dispatched
  path or the statistics raise is caught, and the handler's own statistics cannot
  raise.
\<close>

theorem sort_entry_returns_outside_stream_mode:
  assumes "\<not> stream_mode eng"
  shows "\<exists>out stats. fst (sort_entry sur eng arr) = Inr (out, stats)"
proof -
  have f: "\<exists>out stats. failed_result sur xs e = Inr (out, stats)" for xs e
    by (simp add: failed_result_def calculate_stats_def)
  show ?thesis
    using assms f[of arr]
    by (auto simp: sort_entry_def split_beta Let_def split: sum.splits)
qed

theorem sort_entry_returns_outside_stream_mode_witness:
  "\<not> stream_mode \<lparr> strategy = MEMORY_EFFICIENT, stream_mode = False, use_ml_prediction = False,
        compression_threshold = 10000, external_sort_threshold = 100000,
        stream_processor = \<lparr> sp_chunk_size = 1000, buffer = [], buffer_maxlen = 1000,
          chunks_processed = 0, last_chunk_size = 1000, chunk_history = [] \<rparr> \<rparr>
   \<and> (\<exists>out stats. fst (sort_entry small_run
        \<lparr> strategy = MEMORY_EFFICIENT, stream_mode = False, use_ml_prediction = False,
          compression_threshold = 10000, external_sort_threshold = 100000,
          stream_processor = \<lparr> sp_chunk_size = 1000, buffer = [], buffer_maxlen = 1000,
            chunks_processed = 0, last_chunk_size = 1000, chunk_history = [] \<rparr> \<rparr> [])
        = Inr (out, stats))"
  using sort_entry_returns_outside_stream_mode[of
      "\<lparr> strategy = MEMORY_EFFICIENT, stream_mode = False, use_ml_prediction = False,
        compression_threshold = 10000, external_sort_threshold = 100000,
        stream_processor = \<lparr> sp_chunk_size = 1000, buffer = [], buffer_maxlen = 1000,
          chunks_processed = 0, last_chunk_size = 1000, chunk_history = [] \<rparr> \<rparr>" small_run "[]"]
  by simp

text \<open>
  A cache of size 1000 that has never been asked for \<open>''k''\<close>: after \<^verbatim>\<open>put("k", 5)\<close>,
  \<^verbatim>\<open>get("k")\<close> runs the body and returns 5.
\<close>

theorem get_after_put_unmemoised_witness:
  "put (AdaptiveCache_init 1000) ''k'' (5::int)
     = Inr ((AdaptiveCache_init 1000) \<lparr> cache := [(''k'', 5)], access_history := [''k''] \<rparr>)
   \<and> map_of (get_memo (AdaptiveCache_init 1000 :: (string, int) AdaptiveCache)) ''k'' = None
   \<and> fst (get ((AdaptiveCache_init 1000) \<lparr> cache := [(''k'', 5)], access_history := [''k''] \<rparr>) ''k'')
       = Some (5::int)"
proof -
  have p: "put (AdaptiveCache_init 1000) ''k'' (5::int)
     = Inr ((AdaptiveCache_init 1000) \<lparr> cache := [(''k'', 5)], access_history := [''k''] \<rparr>)"
    by (simp add: put_def AdaptiveCache_init_def deque_append_def Let_def)
  have m: "map_of (get_memo (AdaptiveCache_init 1000 :: (string, int) AdaptiveCache)) ''k'' = None"
    by (simp add: AdaptiveCache_init_def)
  from get_after_put_unmemoised[OF p m] p m show ?thesis by simp
qed

end
